theory Spec2Isabelle
  imports Complex_Main "HOL-Library.Word" "HOL-Library.Signed_Division"
begin

section \<open>Data model\<close>

text \<open>
  A float sample is modelled by its 32-bit pattern: the adapter only copies samples and
  writes the constant 0.0f (pattern 0), so equality of patterns is bit-for-bit equality
  and NaN and infinities are ordinary values.
\<close>

type_synonym sample = "32 word"

text \<open>
  Undefined behaviour and exceptions of the C++ code are results of the model:
  a null \<open>outputFifo\<close>, a division by a zero channel count, an access outside a vector
  or an audio buffer, and a \<open>resize\<close> to a negative size cast to \<open>size_t\<close>.
\<close>

datatype fault = NullPointer | DivisionByZero | OutOfRange | BadAlloc

text \<open>
  What a call of \<open>processBlock\<close> did: the early return behind \<open>jassertfalse\<close>, or one of
  the two words of its debug line.
\<close>

datatype outcome = ChannelMismatch | PROCESSED | PASSTHROUGH

text \<open>\<open>juce::AudioBuffer<float>\<close>: planar, one list of samples per channel.\<close>

record AudioBuffer =
  getNumChannels :: nat
  getNumSamples :: nat
  channelData :: "sample list list"

definition ok_buffer :: "AudioBuffer \<Rightarrow> bool" where
  "ok_buffer b \<longleftrightarrow>
     length (channelData b) = getNumChannels b \<and>
     list_all (\<lambda>c. length c = getNumSamples b) (channelData b)"

definition getSample :: "AudioBuffer \<Rightarrow> nat \<Rightarrow> nat \<Rightarrow> sample" where
  "getSample b channel i = channelData b ! channel ! i"

definition setSample :: "nat \<Rightarrow> nat \<Rightarrow> sample \<Rightarrow> AudioBuffer \<Rightarrow> AudioBuffer" where
  "setSample channel i v b =
     b\<lparr>channelData := (channelData b)[channel := (channelData b ! channel)[i := v]]\<rparr>"

definition clear_buffer :: "AudioBuffer \<Rightarrow> AudioBuffer" where
  "clear_buffer b =
     b\<lparr>channelData := replicate (getNumChannels b) (replicate (getNumSamples b) 0)\<rparr>"

text \<open>\<open>std::vector<float>::resize\<close>: keeps the front, fills new slots with 0.0f.\<close>

definition resize :: "nat \<Rightarrow> sample list \<Rightarrow> sample list" where
  "resize n xs = take n xs @ replicate (n - length xs) 0"

text \<open>
  \<open>std::copy(src.begin() + i, src.begin() + j, dst.begin() + pos)\<close>, with the ranges
  checked.
\<close>

definition std_copy ::
  "sample list \<Rightarrow> nat \<Rightarrow> nat \<Rightarrow> sample list \<Rightarrow> nat \<Rightarrow> fault + sample list" where
  "std_copy src i j dst pos =
     (if i \<le> j \<and> j \<le> length src \<and> pos + (j - i) \<le> length dst
      then Inr (take pos dst @ take (j - i) (drop i src) @ drop (pos + (j - i)) dst)
      else Inl OutOfRange)"

subsection \<open>The ring-buffer cursor\<close>

text \<open>
  Modelled from the spec: the class \<open>juce::AbstractFifo\<close> belongs to the JUCE library and
  is not among the repository's sources. The operations follow section 4.3 of the
  specification: a prepare step that returns up to two contiguous regions covering
  \<open>min n freeSpace\<close> (or \<open>min n occupancy\<close>) items, a commit step that advances one cursor
  modulo the capacity, and occupancy = write cursor - read cursor modulo the capacity.
  As in the library, one slot always stays empty, so that a full buffer differs from an
  empty one: the free space is \<open>bufferSize - occupancy - 1\<close>.
\<close>

record AbstractFifo =
  bufferSize :: nat
  validStart :: nat
  validEnd :: nat

definition AbstractFifo_new :: "nat \<Rightarrow> AbstractFifo" where
  "AbstractFifo_new capacity = \<lparr>bufferSize = capacity, validStart = 0, validEnd = 0\<rparr>"

definition getTotalSize :: "AbstractFifo \<Rightarrow> nat" where
  "getTotalSize f = bufferSize f"

definition getNumReady :: "AbstractFifo \<Rightarrow> nat" where
  "getNumReady f =
     (if validStart f \<le> validEnd f then validEnd f - validStart f
      else bufferSize f - (validStart f - validEnd f))"

definition getFreeSpace :: "AbstractFifo \<Rightarrow> nat" where
  "getFreeSpace f = bufferSize f - getNumReady f - 1"

definition prepareToWrite :: "nat \<Rightarrow> AbstractFifo \<Rightarrow> nat \<times> nat \<times> nat \<times> nat" where
  "prepareToWrite numToWrite f =
     (let n = min numToWrite (getFreeSpace f) in
      if n = 0 then (0, 0, 0, 0)
      else
        let blockSize1 = min (bufferSize f - validEnd f) n
        in (validEnd f, blockSize1, 0, min (n - blockSize1) (validStart f)))"

definition finishedWrite :: "nat \<Rightarrow> AbstractFifo \<Rightarrow> AbstractFifo" where
  "finishedWrite numWritten f =
     (let newEnd = validEnd f + numWritten
      in f\<lparr>validEnd := (if bufferSize f \<le> newEnd then newEnd - bufferSize f else newEnd)\<rparr>)"

definition prepareToRead :: "nat \<Rightarrow> AbstractFifo \<Rightarrow> nat \<times> nat \<times> nat \<times> nat" where
  "prepareToRead numWanted f =
     (let n = min numWanted (getNumReady f) in
      if n = 0 then (0, 0, 0, 0)
      else
        let blockSize1 = min (bufferSize f - validStart f) n
        in (validStart f, blockSize1, 0, min (n - blockSize1) (validEnd f)))"

definition finishedRead :: "nat \<Rightarrow> AbstractFifo \<Rightarrow> AbstractFifo" where
  "finishedRead numRead f =
     (let newStart = validStart f + numRead
      in f\<lparr>validStart := (if bufferSize f \<le> newStart then newStart - bufferSize f else newStart)\<rparr>)"

subsection \<open>The engine\<close>

text \<open>
  \<open>soundtouch::SoundTouch\<close> is an external library. The adapter uses it through the
  operations below, which the model takes as a parameter: a record of functions over an
  engine state of any type \<open>'e\<close>. Counts of type \<open>uint\<close> are natural numbers.
  \<open>st_receiveSamples\<close> gets the receiving vector and the maximal number of frames and
  returns the number of frames delivered, the vector as the engine left it, and its new
  state; \<open>st_putSamples\<close> gets the vector behind the pointer and the number of frames.
\<close>

record 'e SoundTouch =
  st_setSampleRate :: "nat \<Rightarrow> 'e \<Rightarrow> 'e"
  st_setChannels :: "nat \<Rightarrow> 'e \<Rightarrow> 'e"
  st_putSamples :: "sample list \<Rightarrow> nat \<Rightarrow> 'e \<Rightarrow> 'e"
  st_receiveSamples :: "sample list \<Rightarrow> nat \<Rightarrow> 'e \<Rightarrow> nat \<times> sample list \<times> 'e"
  st_numSamples :: "'e \<Rightarrow> nat"
  st_numUnprocessedSamples :: "'e \<Rightarrow> nat"
  st_clear :: "'e \<Rightarrow> 'e"

subsection \<open>The adapter\<close>

text \<open>The members of \<open>class SoundTouchWrapper\<close> (SoundTouchWrapper.h, lines 56 to 68).\<close>

record 'e SoundTouchWrapper =
  processor :: 'e
  currentSampleRate :: real
  currentBlockSize :: int
  currentNumChannels :: int
  interleavedBuffer :: "sample list"
  outputFifo :: "AbstractFifo option"
  fifoBuffer :: "sample list"
  bufferingMode :: int

text \<open>
  The member initialisers of the header; the argument is the engine as the constructor
  leaves it after its \<open>setSetting\<close> calls.
\<close>

definition SoundTouchWrapper_new :: "'e \<Rightarrow> 'e SoundTouchWrapper" where
  "SoundTouchWrapper_new e =
     \<lparr>processor = e, currentSampleRate = 44100, currentBlockSize = 512,
      currentNumChannels = 2, interleavedBuffer = [], outputFifo = None,
      fifoBuffer = [], bufferingMode = 2\<rparr>"

section \<open>Operations\<close>

text \<open>
  A C++ \<open>int\<close> has 32 bits. The members and parameters of that type are integers of the
  model, and \<open>int32\<close> gives the value that a 32-bit two's-complement \<open>int\<close> holds for the
  exact result of a multiplication, an addition or a conversion from \<open>uint\<close>: the result
  itself between \<open>-2^31\<close> and \<open>2^31 - 1\<close>, and the result reduced modulo \<open>2^32\<close> into that
  range otherwise (signed overflow, which C++ leaves undefined, wraps around). It is
  applied in \<open>prepare\<close>, \<open>setBufferingMode\<close> and \<open>getLatencyInSamples\<close>, whose operands are
  the caller's or the engine's. In \<open>processBlock\<close> the counts of the block and of the ring
  buffer are natural numbers and the products of lines 114 to 206 are exact: they fit an
  \<open>int\<close> for every block with \<open>numSamples * numChannels < 2^30\<close>.
\<close>

definition int32 :: "int \<Rightarrow> int" where
  "int32 x = (x + 2147483648) mod 4294967296 - 2147483648"

text \<open>
  The \<open>switch\<close> that \<open>prepare\<close> (lines 60 to 74) and \<open>setBufferingMode\<close> (lines 254 to
  271) both contain; the products are products of \<open>int\<close>.
\<close>

definition fifoSizeFor :: "int \<Rightarrow> int \<Rightarrow> int" where
  "fifoSizeFor mode blockSize =
     (if mode = 1 then max 4096 (int32 (blockSize * 8))
      else if mode = 2 then max 16384 (int32 (blockSize * 32))
      else if mode = 3 then max 32768 (int32 (blockSize * 64))
      else max 16384 (int32 (blockSize * 32)))"

text \<open>
  \<open>prepare\<close>, lines 47 to 80. Both \<open>resize\<close> calls get an \<open>int\<close> product cast to \<open>size_t\<close>;
  a negative product becomes a size above \<open>max_size\<close>, and \<open>resize\<close> throws. The channel
  count goes to the engine as a \<open>uint\<close>, that is modulo \<open>2^32\<close>.
\<close>

definition prepare ::
  "'e SoundTouch \<Rightarrow> real \<Rightarrow> int \<Rightarrow> int \<Rightarrow> 'e SoundTouchWrapper \<Rightarrow> fault + 'e SoundTouchWrapper" where
  "prepare st sampleRate blockSize numChannels w =
     (let interleavedSize = int32 (int32 (blockSize * numChannels) * 2);
          fifoSize = fifoSizeFor (bufferingMode w) blockSize;
          fifoBufferSize = int32 (fifoSize * numChannels) in
      if interleavedSize < 0 \<or> fifoBufferSize < 0 then Inl BadAlloc
      else Inr (w\<lparr>
        processor :=
          st_clear st
            (st_setChannels st (nat (numChannels mod 4294967296))
              (st_setSampleRate st (nat \<lfloor>sampleRate\<rfloor>) (processor w))),
        currentSampleRate := sampleRate,
        currentBlockSize := blockSize,
        currentNumChannels := numChannels,
        interleavedBuffer := resize (nat interleavedSize) (interleavedBuffer w),
        outputFifo := Some (AbstractFifo_new (nat fifoSize)),
        fifoBuffer := resize (nat fifoBufferSize) (fifoBuffer w)\<rparr>))"

text \<open>
  \<open>setBufferingMode\<close>, lines 242 to 281. The \<open>resize\<close> of line 274 throws on a negative
  product, as in \<open>prepare\<close>.
\<close>

definition setBufferingMode ::
  "'e SoundTouch \<Rightarrow> int \<Rightarrow> 'e SoundTouchWrapper \<Rightarrow> fault + 'e SoundTouchWrapper" where
  "setBufferingMode st mode w =
     (if mode < 1 \<or> mode > 3 \<or> mode = bufferingMode w then Inr w
      else if currentBlockSize w > 0 \<and> currentNumChannels w > 0 then
        (let fifoSize = fifoSizeFor mode (currentBlockSize w);
             fifoBufferSize = int32 (fifoSize * currentNumChannels w) in
         if fifoBufferSize < 0 then Inl BadAlloc
         else
           Inr (w\<lparr>bufferingMode := mode,
                  outputFifo := Some (AbstractFifo_new (nat fifoSize)),
                  fifoBuffer := resize (nat fifoBufferSize) (fifoBuffer w),
                  processor := st_clear st (processor w)\<rparr>))
      else Inr (w\<lparr>bufferingMode := mode\<rparr>))"

text \<open>
  \<open>getLatencyInSamples\<close>, lines 221 to 230. Line 226 converts the engine's \<open>uint\<close> count to
  \<open>int\<close>, line 227 divides two \<open>int\<close>s (rounding towards zero), and line 229 adds two
  \<open>int\<close>s.
\<close>

definition getLatencyInSamples :: "'e SoundTouch \<Rightarrow> 'e SoundTouchWrapper \<Rightarrow> fault + int" where
  "getLatencyInSamples st w =
     (let unprocessedSamples = int32 (int (st_numUnprocessedSamples st (processor w))) in
      case outputFifo w of
        None \<Rightarrow> Inr (int32 (unprocessedSamples + 0))
      | Some f \<Rightarrow>
          if currentNumChannels w = 0 then Inl DivisionByZero
          else Inr (int32 (unprocessedSamples
                             + int (getNumReady f) sdiv currentNumChannels w)))"

subsection \<open>processBlock\<close>

text \<open>
  Step 1, lines 120 to 127: the two nested \<open>for\<close> loops that interleave the planar block
  into \<open>interleavedBuffer\<close>, one assignment for each sample and channel.
\<close>

definition interleave :: "AudioBuffer \<Rightarrow> sample list \<Rightarrow> sample list" where
  "interleave buffer ib =
     fold (\<lambda>sample ib1.
             fold (\<lambda>channel ib2.
                     ib2[sample * getNumChannels buffer + channel := getSample buffer channel sample])
                  [0..<getNumChannels buffer] ib1)
          [0..<getNumSamples buffer] ib"

text \<open>
  Lines 144 to 167, the body of the drain loop after the \<open>received == 0\<close> test: as many
  whole frames as are free are copied into the ring buffer and committed.
\<close>

definition fifoWrite ::
  "nat \<Rightarrow> nat \<Rightarrow> sample list \<Rightarrow> AbstractFifo \<Rightarrow> sample list \<Rightarrow>
     fault + (AbstractFifo \<times> sample list)" where
  "fifoWrite received numChannels tempBuffer fifo fb =
     (if numChannels = 0 then Inl DivisionByZero
      else
        let samplesInFifo = getFreeSpace fifo div numChannels;
            samplesToWrite = min received samplesInFifo
        in if samplesToWrite > 0 then
             (case prepareToWrite (samplesToWrite * numChannels) fifo of
                (start1, size1, start2, size2) \<Rightarrow>
                  (case (if size1 > 0 then std_copy tempBuffer 0 size1 fb start1 else Inr fb) of
                     Inl x \<Rightarrow> Inl x
                   | Inr fb1 \<Rightarrow>
                       (case (if size2 > 0
                              then std_copy tempBuffer size1 (size1 + size2) fb1 start2
                              else Inr fb1) of
                          Inl x \<Rightarrow> Inl x
                        | Inr fb2 \<Rightarrow>
                            Inr (finishedWrite (samplesToWrite * numChannels) fifo, fb2))))
           else Inr (fifo, fb))"

text \<open>
  Step 2, lines 134 to 168: the \<open>while\<close> loop that receives from the engine until it
  reports no output. Nothing in the adapter bounds the number of rounds, so the loop is a
  partial function: \<open>None\<close> is a loop that never ends.
\<close>

partial_function (option) drain ::
  "'e SoundTouch \<Rightarrow> nat \<Rightarrow> nat \<Rightarrow> sample list \<Rightarrow> 'e \<Rightarrow> AbstractFifo \<Rightarrow> sample list \<Rightarrow>
     (fault + ('e \<times> AbstractFifo \<times> sample list)) option" where
  "drain st numSamples numChannels tempBuffer e fifo fb =
     (if st_numSamples st e > 0 then
        (case st_receiveSamples st tempBuffer (numSamples * 2) e of
           (received, tempBuffer1, e1) \<Rightarrow>
             if received = 0 then Some (Inr (e1, fifo, fb))
             else
               (case fifoWrite received numChannels tempBuffer1 fifo fb of
                  Inl x \<Rightarrow> Some (Inl x)
                | Inr (fifo1, fb1) \<Rightarrow> drain st numSamples numChannels tempBuffer1 e1 fifo1 fb1))
      else Some (Inr (e, fifo, fb)))"

declare drain.simps [code]

text \<open>
  Lines 189 to 192: one frame goes from the ring buffer to the block, one \<open>setSample\<close> for
  each channel. An index outside \<open>fifoBuffer\<close> or outside the block is a fault.
\<close>

definition copyFrame ::
  "nat \<Rightarrow> nat \<Rightarrow> sample list \<Rightarrow> nat \<Rightarrow> AudioBuffer \<Rightarrow> fault + AudioBuffer" where
  "copyFrame src numChannels fb sampleIndex buffer =
     (if src + numChannels \<le> length fb \<and> sampleIndex < getNumSamples buffer
         \<and> numChannels \<le> getNumChannels buffer
      then Inr (fold (\<lambda>ch b. setSample ch sampleIndex (fb ! (src + ch)) b) [0..<numChannels] buffer)
      else Inl OutOfRange)"

text \<open>
  Lines 187 to 194 and again 197 to 204: \<open>for (int i = 0; i < size; i += numChannels)\<close>,
  which copies a frame and advances \<open>sampleIndex\<close>. With no channel the C++ loop would not
  advance; \<open>processBlock\<close> has divided by the channel count before it gets here.
\<close>

function deinterleaveSpan ::
  "nat \<Rightarrow> nat \<Rightarrow> nat \<Rightarrow> nat \<Rightarrow> sample list \<Rightarrow> AudioBuffer \<Rightarrow> nat \<Rightarrow> fault + (AudioBuffer \<times> nat)" where
  "deinterleaveSpan i sz start numChannels fb buffer sampleIndex =
     (if i < sz \<and> 0 < numChannels then
        (case copyFrame (start + i) numChannels fb sampleIndex buffer of
           Inl x \<Rightarrow> Inl x
         | Inr buffer1 \<Rightarrow>
             deinterleaveSpan (i + numChannels) sz start numChannels fb buffer1 (sampleIndex + 1))
      else Inr (buffer, sampleIndex))"
  by pat_completeness auto
termination
  by (relation "measure (\<lambda>(i, sz, start, numChannels, fb, buffer, sampleIndex). sz - i)") auto

declare deinterleaveSpan.simps [simp del]

text \<open>Lines 184 to 204: both spans, the second continuing at the first's \<open>sampleIndex\<close>.\<close>

definition deinterleave ::
  "nat \<Rightarrow> nat \<Rightarrow> nat \<Rightarrow> nat \<Rightarrow> nat \<Rightarrow> sample list \<Rightarrow> AudioBuffer \<Rightarrow> fault + AudioBuffer" where
  "deinterleave start1 size1 start2 size2 numChannels fb buffer =
     (case deinterleaveSpan 0 size1 start1 numChannels fb buffer 0 of
        Inl x \<Rightarrow> Inl x
      | Inr (buffer1, sampleIndex) \<Rightarrow>
          (case deinterleaveSpan 0 size2 start2 numChannels fb buffer1 sampleIndex of
             Inl x \<Rightarrow> Inl x
           | Inr (buffer2, sampleIndex2) \<Rightarrow> Inr buffer2))"

text \<open>
  Steps 1 and 2 of \<open>processBlock\<close>, lines 112 to 168, for a block whose channel count has
  passed the test of line 106: the state in which line 173 finds the adapter.
\<close>

definition fillAndDrain ::
  "'e SoundTouch \<Rightarrow> AudioBuffer \<Rightarrow> 'e SoundTouchWrapper \<Rightarrow>
     (fault + 'e SoundTouchWrapper) option" where
  "fillAndDrain st buffer w =
     (let numSamples = getNumSamples buffer;
          numChannels = getNumChannels buffer;
          requiredSize = numSamples * numChannels;
          ib0 = (if length (interleavedBuffer w) < requiredSize * 2
                 then resize (requiredSize * 2) (interleavedBuffer w)
                 else interleavedBuffer w);
          ib = interleave buffer ib0;
          e1 = st_putSamples st ib numSamples (processor w);
          tempBuffer = replicate (requiredSize * 2) 0
      in case outputFifo w of
           None \<Rightarrow> Some (Inl NullPointer)
         | Some fifo \<Rightarrow>
             (case drain st numSamples numChannels tempBuffer e1 fifo (fifoBuffer w) of
                None \<Rightarrow> None
              | Some (Inl x) \<Rightarrow> Some (Inl x)
              | Some (Inr (e2, fifo2, fb2)) \<Rightarrow>
                  Some (Inr (w\<lparr>processor := e2, interleavedBuffer := ib,
                               outputFifo := Some fifo2, fifoBuffer := fb2\<rparr>))))"

text \<open>
  Step 3, lines 173 to 208: the block is overwritten from the ring buffer when that holds
  at least one block of frames, and left as it is otherwise.
\<close>

definition deliver ::
  "AudioBuffer \<Rightarrow> 'e SoundTouchWrapper \<Rightarrow> fault + (outcome \<times> AudioBuffer \<times> 'e SoundTouchWrapper)" where
  "deliver buffer w =
     (let numSamples = getNumSamples buffer;
          numChannels = getNumChannels buffer
      in case outputFifo w of
           None \<Rightarrow> Inl NullPointer
         | Some fifo \<Rightarrow>
             if numChannels = 0 then Inl DivisionByZero
             else
               let availableInFifo = getNumReady fifo div numChannels
               in if availableInFifo \<ge> numSamples then
                    (case prepareToRead (numSamples * numChannels) fifo of
                       (start1, size1, start2, size2) \<Rightarrow>
                         (case deinterleave start1 size1 start2 size2 numChannels (fifoBuffer w)
                                 (clear_buffer buffer) of
                            Inl x \<Rightarrow> Inl x
                          | Inr buffer1 \<Rightarrow>
                              Inr (PROCESSED, buffer1,
                                   w\<lparr>outputFifo :=
                                       Some (finishedRead (numSamples * numChannels) fifo)\<rparr>)))
                  else Inr (PASSTHROUGH, buffer, w))"

text \<open>
  \<open>SoundTouchWrapper::processBlock\<close>, lines 101 to 219. The block is passed in and
  returned; the counter and the text of the debug line are left out.
\<close>

definition processBlock ::
  "'e SoundTouch \<Rightarrow> AudioBuffer \<Rightarrow> 'e SoundTouchWrapper \<Rightarrow>
     (fault + (outcome \<times> AudioBuffer \<times> 'e SoundTouchWrapper)) option" where
  "processBlock st buffer w =
     (if int (getNumChannels buffer) \<noteq> currentNumChannels w
      then Some (Inr (ChannelMismatch, buffer, w))
      else
        (case fillAndDrain st buffer w of
           None \<Rightarrow> None
         | Some (Inl x) \<Rightarrow> Some (Inl x)
         | Some (Inr w1) \<Rightarrow> Some (deliver buffer w1)))"

section \<open>The processor-level entry\<close>

text \<open>
  \<open>AUSoundTouchProcessor::setBufferingMode\<close> (PluginProcessor.cpp, lines 166 to 173): the
  plugin's own copy of the mode and the adapter it owns.
\<close>

record 'e AUSoundTouchProcessor =
  soundTouch :: "'e SoundTouchWrapper"
  pluginBufferingMode :: int

definition processorSetBufferingMode ::
  "'e SoundTouch \<Rightarrow> int \<Rightarrow> 'e AUSoundTouchProcessor \<Rightarrow> fault + 'e AUSoundTouchProcessor" where
  "processorSetBufferingMode st mode p =
     (if mode \<ge> 1 \<and> mode \<le> 3
      then (case setBufferingMode st mode (soundTouch p) of
              Inl x \<Rightarrow> Inl x
            | Inr w1 \<Rightarrow> Inr (p\<lparr>pluginBufferingMode := mode, soundTouch := w1\<rparr>))
      else Inr p)"

section \<open>Predicates and observations used by the theorems\<close>

text \<open>Both cursors of the ring buffer lie inside it.\<close>

definition cursorsInside :: "AbstractFifo \<Rightarrow> bool" where
  "cursorsInside f \<longleftrightarrow> validStart f < bufferSize f \<and> validEnd f < bufferSize f"

text \<open>
  A prepared adapter: it has a ring buffer whose cursors lie inside it, at least one
  channel, and a \<open>fifoBuffer\<close> of the size \<open>prepare\<close> and \<open>setBufferingMode\<close> give it.
\<close>

definition prepared :: "'e SoundTouchWrapper \<Rightarrow> bool" where
  "prepared w \<longleftrightarrow>
     (case outputFifo w of
        None \<Rightarrow> False
      | Some f \<Rightarrow>
          0 < currentNumChannels w \<and>
          validStart f < bufferSize f \<and> validEnd f < bufferSize f \<and>
          length (fifoBuffer w) = bufferSize f * nat (currentNumChannels w))"

text \<open>
  The ring buffer counts samples. Its size and both cursors are multiples of the channel
  count when no frame lies across the end of the buffer.
\<close>

definition frameAligned :: "'e SoundTouchWrapper \<Rightarrow> bool" where
  "frameAligned w \<longleftrightarrow>
     (case outputFifo w of
        None \<Rightarrow> False
      | Some f \<Rightarrow>
          nat (currentNumChannels w) dvd bufferSize f \<and>
          nat (currentNumChannels w) dvd validStart f \<and>
          nat (currentNumChannels w) dvd validEnd f)"

text \<open>The samples waiting in the ring buffer, oldest first.\<close>

definition fifoContents :: "AbstractFifo \<Rightarrow> sample list \<Rightarrow> sample list" where
  "fifoContents f fb =
     map (\<lambda>k. fb ! ((validStart f + k) mod bufferSize f)) [0..<getNumReady f]"

text \<open>The samples waiting in the adapter's ring buffer, oldest first.\<close>

definition waiting :: "'e SoundTouchWrapper \<Rightarrow> sample list" where
  "waiting w = (case outputFifo w of None \<Rightarrow> [] | Some f \<Rightarrow> fifoContents f (fifoBuffer w))"

text \<open>Occupancy and capacity in frames: the ring buffer's counts over the channel count.\<close>

definition occupancyFrames :: "'e SoundTouchWrapper \<Rightarrow> nat" where
  "occupancyFrames w =
     (case outputFifo w of
        None \<Rightarrow> 0
      | Some f \<Rightarrow> getNumReady f div nat (currentNumChannels w))"

definition capacityFrames :: "'e SoundTouchWrapper \<Rightarrow> nat" where
  "capacityFrames w =
     (case outputFifo w of
        None \<Rightarrow> 0
      | Some f \<Rightarrow> getTotalSize f div nat (currentNumChannels w))"

text \<open>The planar block of \<open>n\<close> frames that an interleaved list holds.\<close>

definition planar :: "nat \<Rightarrow> nat \<Rightarrow> sample list \<Rightarrow> AudioBuffer" where
  "planar numChannels n xs =
     \<lparr>getNumChannels = numChannels, getNumSamples = n,
      channelData = map (\<lambda>c. map (\<lambda>i. xs ! (i * numChannels + c)) [0..<n]) [0..<numChannels]\<rparr>"

text \<open>
  The contract of \<open>receiveSamples\<close> that the drain loop relies on: asked for at least one
  frame, the engine returns none, or returns \<open>k \<ge> 1\<close> frames and has \<open>k\<close> fewer queued.
\<close>

definition receiveContract :: "'e SoundTouch \<Rightarrow> bool" where
  "receiveContract st \<longleftrightarrow>
     (\<forall>tempBuffer maxSamples e.
        1 \<le> maxSamples \<longrightarrow>
        (case st_receiveSamples st tempBuffer maxSamples e of
           (k, tempBuffer1, e1) \<Rightarrow>
             k = 0 \<or> (1 \<le> k \<and> st_numSamples st e1 = st_numSamples st e - k)))"

text \<open>
  The engine never returns more frames than it was asked for, and writes inside the
  vector it was given.
\<close>

definition receiveBounded :: "'e SoundTouch \<Rightarrow> bool" where
  "receiveBounded st \<longleftrightarrow>
     (\<forall>tempBuffer maxSamples e.
        case st_receiveSamples st tempBuffer maxSamples e of
          (k, tempBuffer1, e1) \<Rightarrow> k \<le> maxSamples \<and> length tempBuffer1 = length tempBuffer)"

section \<open>A concrete engine and concrete blocks\<close>

text \<open>
  A unit-ratio stand-in for the engine: \<open>putSamples\<close> queues the frames it is given and
  \<open>receiveSamples\<close> hands them back in order, as many as are asked for and queued.
\<close>

record relay =
  relayChannels :: nat
  relayQueue :: "sample list"

definition relayEngine :: "relay SoundTouch" where
  "relayEngine =
     \<lparr>st_setSampleRate = (\<lambda>rate e. e),
      st_setChannels = (\<lambda>n e. e\<lparr>relayChannels := n\<rparr>),
      st_putSamples = (\<lambda>xs n e. e\<lparr>relayQueue := relayQueue e @ take (n * relayChannels e) xs\<rparr>),
      st_receiveSamples =
        (\<lambda>tempBuffer maxSamples e.
           let k = min maxSamples (length (relayQueue e) div relayChannels e);
               m = k * relayChannels e
           in (k, take (length tempBuffer) (take m (relayQueue e) @ drop m tempBuffer),
               e\<lparr>relayQueue := drop m (relayQueue e)\<rparr>)),
      st_numSamples = (\<lambda>e. length (relayQueue e) div relayChannels e),
      st_numUnprocessedSamples = (\<lambda>e. 0),
      st_clear = (\<lambda>e. e\<lparr>relayQueue := []\<rparr>)\<rparr>"

definition relayInit :: relay where
  "relayInit = \<lparr>relayChannels = 0, relayQueue = []\<rparr>"

text \<open>The relay engine while it reports \<open>n\<close> samples of input not yet processed.\<close>

definition relayHolding :: "nat \<Rightarrow> relay SoundTouch" where
  "relayHolding n = relayEngine\<lparr>st_numUnprocessedSamples := (\<lambda>e. n)\<rparr>"

definition silence :: "nat \<Rightarrow> nat \<Rightarrow> AudioBuffer" where
  "silence numChannels n =
     \<lparr>getNumChannels = numChannels, getNumSamples = n,
      channelData = replicate numChannels (replicate n 0)\<rparr>"

text \<open>
  A stereo block of three frames holding the patterns of a quiet NaN, of both infinities,
  of 1.0, of 0.0 and of -0.0.
\<close>

definition specials :: AudioBuffer where
  "specials =
     \<lparr>getNumChannels = 2, getNumSamples = 3,
      channelData = [[0x7FC00000, 0x7F800000, 0x3F800000], [0xFF800000, 0, 0x80000000]]\<rparr>"

text \<open>
  The adapter after \<open>prepare(44100.0, 512, 2)\<close> on a new wrapper over the relay engine
  (lemma \<open>prepare_stereo512\<close> below).
\<close>

definition stereo512 :: "relay SoundTouchWrapper" where
  "stereo512 =
     \<lparr>processor = \<lparr>relayChannels = 2, relayQueue = []\<rparr>, currentSampleRate = 44100,
      currentBlockSize = 512, currentNumChannels = 2,
      interleavedBuffer = replicate 2048 0,
      outputFifo = Some \<lparr>bufferSize = 16384, validStart = 0, validEnd = 0\<rparr>,
      fifoBuffer = replicate 32768 0, bufferingMode = 2\<rparr>"

text \<open>
  That adapter in mid-stream: two frames are queued in the engine, and the ring buffer
  holds 484 samples, 242 stereo frames, across its end.
\<close>

definition stereoBusy :: "relay SoundTouchWrapper" where
  "stereoBusy =
     stereo512\<lparr>processor := \<lparr>relayChannels = 2, relayQueue = [1, 2, 3, 4]\<rparr>,
               outputFifo := Some \<lparr>bufferSize = 16384, validStart = 16000, validEnd = 100\<rparr>\<rparr>"

text \<open>The same adapter after \<open>setBufferingMode(1)\<close>, and after \<open>setBufferingMode(3)\<close>.\<close>

definition stereoMinimal :: "relay SoundTouchWrapper" where
  "stereoMinimal =
     \<lparr>processor = \<lparr>relayChannels = 2, relayQueue = []\<rparr>, currentSampleRate = 44100,
      currentBlockSize = 512, currentNumChannels = 2,
      interleavedBuffer = replicate 2048 0,
      outputFifo = Some \<lparr>bufferSize = 4096, validStart = 0, validEnd = 0\<rparr>,
      fifoBuffer = replicate 8192 0, bufferingMode = 1\<rparr>"

definition stereoExtra :: "relay SoundTouchWrapper" where
  "stereoExtra =
     \<lparr>processor = \<lparr>relayChannels = 2, relayQueue = []\<rparr>, currentSampleRate = 44100,
      currentBlockSize = 512, currentNumChannels = 2,
      interleavedBuffer = replicate 2048 0,
      outputFifo = Some \<lparr>bufferSize = 32768, validStart = 0, validEnd = 0\<rparr>,
      fifoBuffer = replicate 65536 0, bufferingMode = 3\<rparr>"

text \<open>
  A host that calls \<open>processBlock\<close> on consecutive blocks, as the unit tests do; the
  result lists the outcomes and gives the adapter after the last block.
\<close>

fun processBlocks ::
  "'e SoundTouch \<Rightarrow> AudioBuffer list \<Rightarrow> 'e SoundTouchWrapper \<Rightarrow>
     (fault + (outcome list \<times> 'e SoundTouchWrapper)) option" where
  "processBlocks st [] w = Some (Inr ([], w))"
| "processBlocks st (b # bs) w =
     (case processBlock st b w of
        None \<Rightarrow> None
      | Some (Inl x) \<Rightarrow> Some (Inl x)
      | Some (Inr (oc, b1, w1)) \<Rightarrow>
          (case processBlocks st bs w1 of
             None \<Rightarrow> None
           | Some (Inl x) \<Rightarrow> Some (Inl x)
           | Some (Inr (ocs, w2)) \<Rightarrow> Some (Inr (oc # ocs, w2))))"

text \<open>
  The adapter after \<open>prepare(44100.0, 512, 3)\<close> on a new wrapper over the relay engine
  (lemma \<open>prepare_surround512\<close> below).
\<close>

definition surround512 :: "relay SoundTouchWrapper" where
  "surround512 =
     \<lparr>processor = \<lparr>relayChannels = 3, relayQueue = []\<rparr>, currentSampleRate = 44100,
      currentBlockSize = 512, currentNumChannels = 3,
      interleavedBuffer = replicate 3072 0,
      outputFifo = Some \<lparr>bufferSize = 16384, validStart = 0, validEnd = 0\<rparr>,
      fifoBuffer = replicate 49152 0, bufferingMode = 2\<rparr>"

section \<open>Theorems\<close>

subsection \<open>32-bit arithmetic\<close>

lemma int32_id: "- 2147483648 \<le> x \<Longrightarrow> x < 2147483648 \<Longrightarrow> int32 x = x"
  by (simp add: int32_def)

lemma int32_range: "- 2147483648 \<le> int32 x" "int32 x < 2147483648"
proof -
  have "0 \<le> (x + 2147483648) mod 4294967296" "(x + 2147483648) mod 4294967296 < 4294967296"
    by simp_all
  then show "- 2147483648 \<le> int32 x" "int32 x < 2147483648"
    by (simp_all add: int32_def)
qed

lemma int32_nonneg_id:
  assumes "0 \<le> x" and "x < 4294967296" and "0 \<le> int32 x"
  shows "int32 x = x"
proof (cases "x < 2147483648")
  case True
  with assms(1) show ?thesis by (simp add: int32_id)
next
  case False
  have "(x + 2147483648) mod 4294967296 = (x - 2147483648 + 4294967296) mod 4294967296"
    by (rule arg_cong [where f = "\<lambda>y. y mod 4294967296"]) simp
  also have "\<dots> = (x - 2147483648) mod 4294967296"
    by (rule mod_add_self2)
  also from False assms(2) have "\<dots> = x - 2147483648"
    by simp
  finally have "int32 x = x - 4294967296"
    by (simp add: int32_def)
  with assms(2,3) show ?thesis by simp
qed

lemma even_int32: "even x \<Longrightarrow> even (int32 x)"
  by (simp add: int32_def dvd_mod_iff)

text \<open>
  From a block size of \<open>2^26\<close> in mode 2, and of \<open>2^25\<close> in mode 3, the product of the \<open>switch\<close>
  no longer fits and \<open>std::max\<close> picks the constant.
\<close>

lemma fifoSizeFor_wraps:
  "fifoSizeFor 2 67108864 = 16384" "fifoSizeFor 3 33554432 = 32768"
  "fifoSizeFor 2 67108863 = 2147483616" "fifoSizeFor 3 33554431 = 2147483584"
  by (simp_all add: fifoSizeFor_def int32_def)

subsection \<open>Concrete states\<close>

lemma prepare_stereo512:
  "prepare relayEngine 44100 512 2 (SoundTouchWrapper_new relayInit) = Inr stereo512"
  by (simp add: prepare_def SoundTouchWrapper_new_def fifoSizeFor_def int32_def resize_def
      AbstractFifo_new_def relayEngine_def relayInit_def stereo512_def)

lemma prepare_surround512:
  "prepare relayEngine 44100 512 3 (SoundTouchWrapper_new relayInit) = Inr surround512"
  by (simp add: prepare_def SoundTouchWrapper_new_def fifoSizeFor_def int32_def resize_def
      AbstractFifo_new_def relayEngine_def relayInit_def surround512_def)

lemma prepared_stereo512: "prepared stereo512"
  by (simp add: prepared_def stereo512_def)

lemma frameAligned_stereo512: "frameAligned stereo512"
  by (simp add: frameAligned_def stereo512_def)

subsection \<open>Channel-count mismatch\<close>

text \<open>
  C2. A block whose channel count differs from the prepared one is returned as it came,
  the adapter is left as it was, and the call ends in the branch behind \<open>jassertfalse\<close>
  (the outcome \<open>ChannelMismatch\<close>), for every block size and every adapter state; it is
  neither a fault nor a loop.
\<close>

theorem processBlock_channel_mismatch:
  "int (getNumChannels buffer) \<noteq> currentNumChannels w \<Longrightarrow>
   processBlock st buffer w = Some (Inr (ChannelMismatch, buffer, w))"
  by (simp add: processBlock_def)

theorem processBlock_channel_mismatch_witness:
  "int (getNumChannels (silence 1 512)) \<noteq> currentNumChannels stereo512 \<and>
   processBlock relayEngine (silence 1 512) stereo512 =
     Some (Inr (ChannelMismatch, silence 1 512, stereo512))"
proof -
  have h: "int (getNumChannels (silence 1 512)) \<noteq> currentNumChannels stereo512"
    by (simp add: silence_def stereo512_def)
  from processBlock_channel_mismatch [OF h, of relayEngine] h show ?thesis
    by simp
qed

subsection \<open>Buffering mode\<close>

text \<open>
  C9. \<open>setBufferingMode\<close> with a mode outside 1..3, or with the mode already active,
  returns the adapter unchanged: same ring buffer, same engine state, same buffered
  samples. The processor-level entry leaves the whole plugin state unchanged for a mode
  outside 1..3.
\<close>

theorem setBufferingMode_noop:
  "(mode < 1 \<or> 3 < mode \<or> mode = bufferingMode w \<longrightarrow> setBufferingMode st mode w = Inr w) \<and>
   (mode < 1 \<or> 3 < mode \<longrightarrow> processorSetBufferingMode st mode p = Inr p)"
  by (auto simp: setBufferingMode_def processorSetBufferingMode_def)

theorem setBufferingMode_noop_witness:
  "setBufferingMode relayEngine 7 stereo512 = Inr stereo512 \<and>
   setBufferingMode relayEngine 2 stereo512 = Inr stereo512 \<and>
   processorSetBufferingMode relayEngine 0 \<lparr>soundTouch = stereo512, pluginBufferingMode = 2\<rparr>
     = Inr \<lparr>soundTouch = stereo512, pluginBufferingMode = 2\<rparr>"
  using setBufferingMode_noop [of 7 stereo512 relayEngine]
    setBufferingMode_noop [of 2 stereo512 relayEngine]
    setBufferingMode_noop [of 0 stereo512 relayEngine
      "\<lparr>soundTouch = stereo512, pluginBufferingMode = 2\<rparr>"]
  by (simp add: stereo512_def)

lemma length_resize: "length (resize n xs) = n"
  by (simp add: resize_def)

lemma fifoSizeFor_pos: "0 < fifoSizeFor mode bs"
  by (simp add: fifoSizeFor_def max_def)

lemma fifoSizeFor_less: "fifoSizeFor mode bs < 2147483648"
  using int32_range(2) [of "bs * 8"] int32_range(2) [of "bs * 32"] int32_range(2) [of "bs * 64"]
  by (simp add: fifoSizeFor_def max_def)

text \<open>
  What a change of mode resets, on every adapter with a positive block size and channel
  count: the mode is stored, the ring buffer is a new, empty one made with the number
  that the \<open>switch\<close> computes, and the engine is cleared.
\<close>

lemma setBufferingMode_resets:
  assumes "0 < currentBlockSize w" and "0 < currentNumChannels w"
    and "1 \<le> mode" and "mode \<le> 3" and "mode \<noteq> bufferingMode w"
    and "setBufferingMode st mode w = Inr w1"
  shows "bufferingMode w1 = mode"
    and "outputFifo w1 = Some (AbstractFifo_new (nat (fifoSizeFor mode (currentBlockSize w))))"
    and "occupancyFrames w1 = 0"
    and "processor w1 = st_clear st (processor w)"
  using assms
  by (auto simp: setBufferingMode_def Let_def occupancyFrames_def AbstractFifo_new_def
      getNumReady_def split: if_splits)

text \<open>
  C7. On the stereo adapter that \<open>prepare(44100.0, 512, 2)\<close> builds, fresh or taken in
  mid-stream with 242 frames in the ring buffer and two in the engine, \<open>setBufferingMode(1)\<close>
  followed at once by \<open>setBufferingMode(3)\<close>, and \<open>setBufferingMode(3)\<close> alone, store the
  mode, empty the ring buffer and clear the engine. The new ring buffer is made with the
  number of the Extra policy, \<open>max(32768, 64 * 512) = 32768\<close>, and counts samples: its
  capacity is 16384 stereo frames, of which 16383 can be written, half of what the policy
  prescribes, while \<open>fifoBuffer\<close> has been sized for 32768 frames.
\<close>

theorem setBufferingMode_extra_capacity:
  "setBufferingMode relayEngine 1 stereoBusy = Inr stereoMinimal \<and>
   setBufferingMode relayEngine 3 stereoMinimal = Inr stereoExtra \<and>
   setBufferingMode relayEngine 3 stereoBusy = Inr stereoExtra \<and>
   setBufferingMode relayEngine 3 stereo512 = Inr stereoExtra \<and>
   occupancyFrames stereoBusy = 242 \<and>
   st_numSamples relayEngine (processor stereoBusy) = 2 \<and>
   bufferingMode stereoExtra = 3 \<and>
   occupancyFrames stereoExtra = 0 \<and>
   st_numSamples relayEngine (processor stereoExtra) = 0 \<and>
   fifoSizeFor 3 (currentBlockSize stereoBusy) = 32768 \<and>
   map_option getTotalSize (outputFifo stereoExtra) = Some 32768 \<and>
   capacityFrames stereoExtra = 16384 \<and>
   map_option (\<lambda>f. getFreeSpace f div 2) (outputFifo stereoExtra) = Some 16383 \<and>
   length (fifoBuffer stereoExtra) = 32768 * 2"
proof -
  have grow1: "replicate 32768 (0::sample) @ replicate 32768 0 = replicate 65536 0"
    and grow2: "replicate 8192 (0::sample) @ replicate 57344 0 = replicate 65536 0"
    by (simp_all add: replicate_add [symmetric])
  have a: "setBufferingMode relayEngine 1 stereoBusy = Inr stereoMinimal"
    by (simp add: setBufferingMode_def stereoBusy_def stereo512_def stereoMinimal_def
        fifoSizeFor_def int32_def resize_def AbstractFifo_new_def relayEngine_def)
  have b: "setBufferingMode relayEngine 3 stereoMinimal = Inr stereoExtra"
    by (simp add: setBufferingMode_def stereoMinimal_def stereoExtra_def
        fifoSizeFor_def int32_def resize_def AbstractFifo_new_def relayEngine_def grow2)
  have c: "setBufferingMode relayEngine 3 stereoBusy = Inr stereoExtra"
    by (simp add: setBufferingMode_def stereoBusy_def stereo512_def stereoExtra_def
        fifoSizeFor_def int32_def resize_def AbstractFifo_new_def relayEngine_def grow1)
  have c2: "setBufferingMode relayEngine 3 stereo512 = Inr stereoExtra"
    by (simp add: setBufferingMode_def stereo512_def stereoExtra_def
        fifoSizeFor_def int32_def resize_def AbstractFifo_new_def relayEngine_def grow1)
  have d: "occupancyFrames stereoBusy = 242"
    "st_numSamples relayEngine (processor stereoBusy) = 2"
    "fifoSizeFor 3 (currentBlockSize stereoBusy) = 32768"
    by (simp_all add: stereoBusy_def stereo512_def occupancyFrames_def getNumReady_def
        relayEngine_def fifoSizeFor_def int32_def)
  have e: "bufferingMode stereoExtra = 3" "occupancyFrames stereoExtra = 0"
    "st_numSamples relayEngine (processor stereoExtra) = 0"
    "map_option getTotalSize (outputFifo stereoExtra) = Some 32768"
    "capacityFrames stereoExtra = 16384"
    "map_option (\<lambda>f. getFreeSpace f div 2) (outputFifo stereoExtra) = Some 16383"
    "length (fifoBuffer stereoExtra) = 32768 * 2"
    by (simp_all add: stereoExtra_def occupancyFrames_def capacityFrames_def getTotalSize_def
        getFreeSpace_def getNumReady_def relayEngine_def)
  from a b c c2 d e show ?thesis by (intro conjI)
qed

subsection \<open>Latency\<close>

text \<open>
  C6, as amended. \<open>getLatencyInSamples\<close> is a function of the adapter's present state
  alone. On an adapter that has at least one channel or no ring buffer yet, and as long as
  the engine's count of unprocessed samples plus the ring buffer's occupancy in frames is
  below \<open>2^31\<close>, it returns exactly that sum (no occupancy while there is no ring buffer),
  which is not negative.
\<close>

theorem getLatencyInSamples_sum:
  assumes "outputFifo w = None \<or> 0 < currentNumChannels w"
    and "st_numUnprocessedSamples st (processor w) + occupancyFrames w < 2147483648"
  shows "\<exists>r. getLatencyInSamples st w = Inr r \<and>
             r = int (st_numUnprocessedSamples st (processor w)) + int (occupancyFrames w) \<and>
             0 \<le> r"
proof -
  let ?u = "st_numUnprocessedSamples st (processor w)"
  from assms(2) have u: "int32 (int ?u) = int ?u"
    by (intro int32_id) simp_all
  from assms(2) have s: "int32 (int ?u + int (occupancyFrames w)) = int ?u + int (occupancyFrames w)"
    by (intro int32_id) simp_all
  show ?thesis
  proof (cases "outputFifo w")
    case None
    with u show ?thesis
      by (simp add: getLatencyInSamples_def occupancyFrames_def)
  next
    case (Some f)
    with assms(1) have c: "0 < currentNumChannels w" by simp
    then have "int (getNumReady f) sdiv currentNumChannels w
                 = int (getNumReady f div nat (currentNumChannels w))"
      by (simp add: signed_divide_int_def zdiv_int sgn_if)
    moreover from Some have "occupancyFrames w = getNumReady f div nat (currentNumChannels w)"
      by (simp add: occupancyFrames_def)
    ultimately show ?thesis
      using Some c u s by (simp add: getLatencyInSamples_def)
  qed
qed

theorem getLatencyInSamples_sum_witness:
  "(outputFifo stereoBusy = None \<or> 0 < currentNumChannels stereoBusy) \<and>
   st_numUnprocessedSamples (relayHolding 7) (processor stereoBusy) + occupancyFrames stereoBusy
     < 2147483648 \<and>
   st_numUnprocessedSamples (relayHolding 7) (processor stereoBusy) = 7 \<and>
   occupancyFrames stereoBusy = 242 \<and>
   getLatencyInSamples (relayHolding 7) stereoBusy = Inr 249 \<and>
   getLatencyInSamples relayEngine (SoundTouchWrapper_new relayInit) = Inr 0"
proof -
  have o: "occupancyFrames stereoBusy = 242"
    by (simp add: stereoBusy_def stereo512_def occupancyFrames_def getNumReady_def)
  have u: "st_numUnprocessedSamples (relayHolding 7) (processor stereoBusy) = 7"
    by (simp add: relayHolding_def)
  have h1: "outputFifo stereoBusy = None \<or> 0 < currentNumChannels stereoBusy"
    by (simp add: stereoBusy_def stereo512_def)
  have h2: "st_numUnprocessedSamples (relayHolding 7) (processor stereoBusy)
              + occupancyFrames stereoBusy < 2147483648"
    by (simp add: o u)
  have k1: "outputFifo (SoundTouchWrapper_new relayInit) = None
            \<or> 0 < currentNumChannels (SoundTouchWrapper_new relayInit)"
    by (simp add: SoundTouchWrapper_new_def)
  have k2: "st_numUnprocessedSamples relayEngine (processor (SoundTouchWrapper_new relayInit))
              + occupancyFrames (SoundTouchWrapper_new relayInit) < 2147483648"
    by (simp add: relayEngine_def occupancyFrames_def SoundTouchWrapper_new_def)
  have z: "st_numUnprocessedSamples relayEngine (processor (SoundTouchWrapper_new relayInit)) = 0"
    "occupancyFrames (SoundTouchWrapper_new relayInit) = 0"
    by (simp_all add: relayEngine_def occupancyFrames_def SoundTouchWrapper_new_def)
  from getLatencyInSamples_sum [OF h1 h2] getLatencyInSamples_sum [OF k1 k2] h1 h2 o u z
  show ?thesis by simp
qed

text \<open>
  C6, as stated, fails when the engine's count does not fit an \<open>int\<close>: with 3000000000
  unprocessed samples and an empty ring buffer, the conversion of line 226 gives
  \<open>3000000000 - 2^32\<close>, and the latency returned is negative and is not the sum.
\<close>

theorem getLatencyInSamples_wraps:
  "st_numUnprocessedSamples (relayHolding 3000000000) (processor stereo512) = 3000000000 \<and>
   occupancyFrames stereo512 = 0 \<and>
   getLatencyInSamples (relayHolding 3000000000) stereo512 = Inr (- 1294967296)"
  by (simp add: relayHolding_def stereo512_def occupancyFrames_def getNumReady_def
      getLatencyInSamples_def int32_def signed_divide_int_def)

subsection \<open>Capacity\<close>

text \<open>
  C4. \<open>prepare(44100.0, 512, 2)\<close> in the default mode builds the ring buffer with the
  policy's number, 16384, as its size. The ring buffer counts samples (\<open>processBlock\<close>
  writes and reads \<open>frames * numChannels\<close> items), so its capacity is 8192 stereo frames,
  and line 144 finds room for 8191 frames in the empty buffer, while \<open>fifoBuffer\<close> has
  been sized for 16384 frames.
\<close>

theorem prepare_stereo_capacity:
  "prepare relayEngine 44100 512 2 (SoundTouchWrapper_new relayInit) = Inr stereo512 \<and>
   fifoSizeFor (bufferingMode stereo512) 512 = 16384 \<and>
   map_option getTotalSize (outputFifo stereo512) = Some 16384 \<and>
   capacityFrames stereo512 = 8192 \<and>
   map_option (\<lambda>f. getFreeSpace f div 2) (outputFifo stereo512) = Some 8191 \<and>
   length (fifoBuffer stereo512) = 16384 * 2"
  by (simp add: prepare_stereo512)
    (simp add: stereo512_def fifoSizeFor_def int32_def capacityFrames_def getTotalSize_def
      getFreeSpace_def getNumReady_def)

subsection \<open>The drain loop ends\<close>

lemma receiveContractD:
  assumes "receiveContract st" and "1 \<le> m" and "st_receiveSamples st t m e = (k, t1, e1)"
  shows "k = 0 \<or> (1 \<le> k \<and> st_numSamples st e1 = st_numSamples st e - k)"
proof -
  from assms(1) have "\<forall>maxSamples e. 1 \<le> maxSamples \<longrightarrow>
        (case st_receiveSamples st t maxSamples e of
           (k, tempBuffer1, e1) \<Rightarrow>
             k = 0 \<or> (1 \<le> k \<and> st_numSamples st e1 = st_numSamples st e - k))"
    unfolding receiveContract_def by (rule spec)
  then have "\<forall>e. 1 \<le> m \<longrightarrow>
        (case st_receiveSamples st t m e of
           (k, tempBuffer1, e1) \<Rightarrow>
             k = 0 \<or> (1 \<le> k \<and> st_numSamples st e1 = st_numSamples st e - k))"
    by (rule spec)
  then have "1 \<le> m \<longrightarrow>
        (case st_receiveSamples st t m e of
           (k, tempBuffer1, e1) \<Rightarrow>
             k = 0 \<or> (1 \<le> k \<and> st_numSamples st e1 = st_numSamples st e - k))"
    by (rule spec)
  with assms(2,3) show ?thesis by simp
qed

lemma drain_terminates:
  assumes c: "receiveContract st" and n: "1 \<le> numSamples"
  shows "\<exists>r. drain st numSamples numChannels tempBuffer e fifo fb = Some r"
proof (induction "st_numSamples st e" arbitrary: tempBuffer e fifo fb rule: less_induct)
  case less
  show ?case
  proof (cases "st_numSamples st e > 0")
    case False
    then show ?thesis by (subst drain.simps) simp
  next
    case True
    obtain k t1 e1 where r: "st_receiveSamples st tempBuffer (numSamples * 2) e = (k, t1, e1)"
      by (cases "st_receiveSamples st tempBuffer (numSamples * 2) e") auto
    from n have "1 \<le> numSamples * 2" by simp
    from receiveContractD [OF c this r]
    have k: "k = 0 \<or> (1 \<le> k \<and> st_numSamples st e1 = st_numSamples st e - k)" .
    show ?thesis
    proof (cases "k = 0")
      case True
      with r \<open>st_numSamples st e > 0\<close> show ?thesis by (subst drain.simps) simp
    next
      case False
      with k True have lt: "st_numSamples st e1 < st_numSamples st e" by simp
      show ?thesis
      proof (cases "fifoWrite k numChannels t1 fifo fb")
        case (Inl x)
        with r False True show ?thesis by (subst drain.simps) simp
      next
        case (Inr p)
        obtain fifo1 fb1 where p: "p = (fifo1, fb1)" by (cases p)
        from less [OF lt, of t1 fifo1 fb1] obtain r1
          where "drain st numSamples numChannels t1 e1 fifo1 fb1 = Some r1" by blast
        with r False True Inr p show ?thesis by (subst drain.simps) simp
      qed
    qed
  qed
qed

lemma sub_mult_div: "k * c \<le> (a::nat) \<Longrightarrow> (a - k * c) div c = a div c - k"
proof (cases "c = 0")
  case True then show ?thesis by simp
next
  case False
  assume h: "k * c \<le> a"
  then obtain d where a: "a = d + k * c" by (metis le_add_diff_inverse2)
  with False show ?thesis by simp
qed

lemma min_div_mult_le: "min m (a div c) * c \<le> (a::nat)"
  by (rule order_trans [OF mult_le_mono1 div_times_less_eq_dividend]) simp

lemma relay_receiveContract: "receiveContract relayEngine"
  unfolding receiveContract_def
proof (intro allI impI)
  fix tempBuffer :: "sample list" and maxSamples :: nat and e :: relay
  let ?k = "min maxSamples (length (relayQueue e) div relayChannels e)"
  have "?k * relayChannels e \<le> length (relayQueue e)"
    by (rule order_trans [OF mult_le_mono1 div_times_less_eq_dividend]) simp
  then have "(length (relayQueue e) - ?k * relayChannels e) div relayChannels e
               = length (relayQueue e) div relayChannels e - ?k"
    by (rule sub_mult_div)
  then show "case st_receiveSamples relayEngine tempBuffer maxSamples e of
        (k, tempBuffer1, e1) \<Rightarrow>
          k = 0 \<or> (1 \<le> k \<and> st_numSamples relayEngine e1 = st_numSamples relayEngine e - k)"
    by (auto simp: relayEngine_def Let_def)
qed

lemma length_overwrite:
  "m \<le> length q \<Longrightarrow> length (take (length t) (take m q @ drop m t)) = length t"
  by simp

lemma relay_receiveBounded: "receiveBounded relayEngine"
  unfolding receiveBounded_def
proof (intro allI)
  fix tempBuffer :: "sample list" and maxSamples :: nat and e :: relay
  define k where "k = min maxSamples (length (relayQueue e) div relayChannels e)"
  have "k * relayChannels e \<le> length (relayQueue e)"
    unfolding k_def by (rule min_div_mult_le)
  then have "length (take (length tempBuffer)
               (take (k * relayChannels e) (relayQueue e) @ drop (k * relayChannels e) tempBuffer))
             = length tempBuffer"
    by (rule length_overwrite)
  moreover have "k \<le> maxSamples" by (simp add: k_def)
  ultimately show "case st_receiveSamples relayEngine tempBuffer maxSamples e of
          (k, tempBuffer1, e1) \<Rightarrow> k \<le> maxSamples \<and> length tempBuffer1 = length tempBuffer"
    by (simp add: relayEngine_def Let_def k_def [symmetric])
qed

lemma fillAndDrain_terminates:
  assumes "receiveContract st" and "1 \<le> getNumSamples buffer"
  shows "\<exists>r. fillAndDrain st buffer w = Some r"
proof (cases "outputFifo w")
  case None
  then show ?thesis by (simp add: fillAndDrain_def Let_def)
next
  case (Some fifo)
  let ?n = "getNumSamples buffer" and ?c = "getNumChannels buffer"
  let ?ib = "interleave buffer
               (if length (interleavedBuffer w) < ?n * ?c * 2
                then resize (?n * ?c * 2) (interleavedBuffer w) else interleavedBuffer w)"
  from drain_terminates [OF assms] obtain r where
    r: "drain st ?n ?c (replicate (?n * ?c * 2) 0) (st_putSamples st ?ib ?n (processor w))
          fifo (fifoBuffer w) = Some r"
    by blast
  show ?thesis
  proof (cases r)
    case (Inl x)
    with r Some show ?thesis by (simp add: fillAndDrain_def Let_def)
  next
    case (Inr p)
    obtain e2 fifo2 fb2 where "p = (e2, fifo2, fb2)" by (cases p)
    with Inr r Some show ?thesis by (simp add: fillAndDrain_def Let_def)
  qed
qed

text \<open>
  C10. For an engine that keeps the contract of \<open>receiveSamples\<close> (asked for at least one
  frame it returns none, or \<open>k \<ge> 1\<close> frames and has \<open>k\<close> fewer queued), and a block of at
  least one frame, so that the loop asks for \<open>numSamples * 2 \<ge> 1\<close> frames, the drain loop
  returns from any state, and so does \<open>processBlock\<close>.
\<close>

theorem drain_loop_terminates:
  assumes "receiveContract st" and "1 \<le> getNumSamples buffer"
  shows "(\<exists>r. drain st (getNumSamples buffer) numChannels tempBuffer e fifo fb = Some r) \<and>
         (\<exists>r. processBlock st buffer w = Some r)"
proof
  show "\<exists>r. drain st (getNumSamples buffer) numChannels tempBuffer e fifo fb = Some r"
    by (rule drain_terminates [OF assms])
  from fillAndDrain_terminates [OF assms] obtain r where r: "fillAndDrain st buffer w = Some r"
    by blast
  show "\<exists>r. processBlock st buffer w = Some r"
    by (cases r) (simp_all add: processBlock_def r)
qed

theorem drain_loop_terminates_witness:
  "receiveContract relayEngine \<and> 1 \<le> getNumSamples (silence 2 512) \<and>
   (\<exists>r. drain relayEngine (getNumSamples (silence 2 512)) 2 (replicate 2048 0)
          \<lparr>relayChannels = 2, relayQueue = replicate 1024 0\<rparr>
          \<lparr>bufferSize = 16384, validStart = 0, validEnd = 0\<rparr> (replicate 32768 0) = Some r) \<and>
   (\<exists>r. processBlock relayEngine (silence 2 512) stereo512 = Some r)"
proof -
  have h: "1 \<le> getNumSamples (silence 2 512)" by (simp add: silence_def)
  from drain_loop_terminates [OF relay_receiveContract h] relay_receiveContract h
  show ?thesis by blast
qed

subsection \<open>Interleaving and de-interleaving\<close>

lemma frame_div_mod:
  fixes j :: nat
  assumes "n * C \<le> j" and "j < n * C + C"
  shows "j div C = n" and "j mod C = j - n * C"
proof -
  show d: "j div C = n"
    by (rule div_nat_eqI) (use assms in \<open>simp_all add: mult.commute\<close>)
  have "j mod C = j - (j div C) * C"
    by (simp add: modulo_nat_def mult.commute)
  with d show "j mod C = j - n * C" by simp
qed

lemma fold_channels_nth:
  fixes ib :: "sample list"
  shows "length (fold (\<lambda>channel ib2. ib2[base + channel := g channel]) [0..<m] ib) = length ib \<and>
         (\<forall>j. j < length ib \<longrightarrow>
            fold (\<lambda>channel ib2. ib2[base + channel := g channel]) [0..<m] ib ! j
              = (if base \<le> j \<and> j < base + m then g (j - base) else ib ! j))"
proof (induction m)
  case 0
  show ?case by auto
next
  case (Suc m)
  let ?r = "fold (\<lambda>channel ib2. ib2[base + channel := g channel]) [0..<m] ib"
  from Suc have len: "length ?r = length ib"
    and nth: "\<And>j. j < length ib \<Longrightarrow>
                ?r ! j = (if base \<le> j \<and> j < base + m then g (j - base) else ib ! j)"
    by simp_all
  have step: "fold (\<lambda>channel ib2. ib2[base + channel := g channel]) [0..<Suc m] ib
                = ?r[base + m := g m]"
    by simp
  show ?case
  proof (intro conjI allI impI)
    show "length (fold (\<lambda>channel ib2. ib2[base + channel := g channel]) [0..<Suc m] ib)
            = length ib"
      by (simp only: step) (simp add: len)
  next
    fix j assume j: "j < length ib"
    show "fold (\<lambda>channel ib2. ib2[base + channel := g channel]) [0..<Suc m] ib ! j
            = (if base \<le> j \<and> j < base + Suc m then g (j - base) else ib ! j)"
    proof (cases "j = base + m")
      case True
      with j len show ?thesis by (simp only: step) simp
    next
      case False
      with j len nth [OF j] show ?thesis by (simp only: step) (auto simp: nth_list_update)
    qed
  qed
qed

lemma fold_samples_nth:
  fixes ib :: "sample list"
  assumes C: "0 < C"
  shows "length (fold (\<lambda>sample ib1.
                    fold (\<lambda>channel ib2. ib2[sample * C + channel := g channel sample]) [0..<C] ib1)
                 [0..<n] ib) = length ib \<and>
         (\<forall>j. j < length ib \<longrightarrow>
            fold (\<lambda>sample ib1.
                    fold (\<lambda>channel ib2. ib2[sample * C + channel := g channel sample]) [0..<C] ib1)
                 [0..<n] ib ! j
              = (if j < n * C then g (j mod C) (j div C) else ib ! j))"
proof (induction n)
  case 0
  show ?case by simp
next
  case (Suc n)
  let ?r = "fold (\<lambda>sample ib1.
                    fold (\<lambda>channel ib2. ib2[sample * C + channel := g channel sample]) [0..<C] ib1)
                 [0..<n] ib"
  from Suc have len: "length ?r = length ib"
    and nth: "\<And>j. j < length ib \<Longrightarrow> ?r ! j = (if j < n * C then g (j mod C) (j div C) else ib ! j)"
    by simp_all
  note inner = fold_channels_nth [of "n * C" "\<lambda>c. g c n" C ?r]
  have step: "fold (\<lambda>sample ib1.
                    fold (\<lambda>channel ib2. ib2[sample * C + channel := g channel sample]) [0..<C] ib1)
                 [0..<Suc n] ib
              = fold (\<lambda>channel ib2. ib2[n * C + channel := g channel n]) [0..<C] ?r"
    by simp
  show ?case
  proof (intro conjI allI impI)
    show "length (fold (\<lambda>sample ib1.
                    fold (\<lambda>channel ib2. ib2[sample * C + channel := g channel sample]) [0..<C] ib1)
                 [0..<Suc n] ib) = length ib"
      using inner len by (simp only: step)
  next
    fix j assume j: "j < length ib"
    with len have j': "j < length ?r" by simp
    from inner j' have e: "fold (\<lambda>channel ib2. ib2[n * C + channel := g channel n]) [0..<C] ?r ! j
        = (if n * C \<le> j \<and> j < n * C + C then g (j - n * C) n else ?r ! j)"
      by blast
    show "fold (\<lambda>sample ib1.
                    fold (\<lambda>channel ib2. ib2[sample * C + channel := g channel sample]) [0..<C] ib1)
                 [0..<Suc n] ib ! j
          = (if j < Suc n * C then g (j mod C) (j div C) else ib ! j)"
    proof (cases "n * C \<le> j \<and> j < n * C + C")
      case True
      then have "j div C = n" "j mod C = j - n * C"
        using frame_div_mod [of n C j] by simp_all
      with True e show ?thesis by (simp only: step) simp
    next
      case False
      with e nth [OF j] show ?thesis by (simp only: step) (auto simp: not_le)
    qed
  qed
qed

lemma interleave_nth:
  assumes "0 < getNumChannels x"
  shows "length (interleave x ib) = length ib"
    and "j < length ib \<Longrightarrow>
         interleave x ib ! j
           = (if j < getNumSamples x * getNumChannels x
              then getSample x (j mod getNumChannels x) (j div getNumChannels x) else ib ! j)"
  using fold_samples_nth [OF assms, of "getSample x" "getNumSamples x" ib]
  by (simp_all add: interleave_def)

lemma ok_buffer_iff:
  "ok_buffer b \<longleftrightarrow>
     length (channelData b) = getNumChannels b \<and>
     (\<forall>c<getNumChannels b. length (channelData b ! c) = getNumSamples b)"
  by (auto simp: ok_buffer_def list_all_length)

lemma setSample_dims [simp]:
  "getNumChannels (setSample c i v b) = getNumChannels b"
  "getNumSamples (setSample c i v b) = getNumSamples b"
  by (simp_all add: setSample_def)

lemma ok_buffer_setSample: "ok_buffer b \<Longrightarrow> ok_buffer (setSample c i v b)"
  by (cases "c < length (channelData b)")
    (auto simp: ok_buffer_iff setSample_def nth_list_update)

lemma getSample_setSample:
  assumes "ok_buffer b" and "c < getNumChannels b" and "i < getNumSamples b"
    and "c' < getNumChannels b" and "t < getNumSamples b"
  shows "getSample (setSample c i v b) c' t = (if c' = c \<and> t = i then v else getSample b c' t)"
  using assms by (auto simp: ok_buffer_iff setSample_def getSample_def nth_list_update)

lemma AudioBuffer_eqI:
  assumes "ok_buffer a" and "ok_buffer b"
    and "getNumChannels a = getNumChannels b" and "getNumSamples a = getNumSamples b"
    and "\<And>c t. c < getNumChannels a \<Longrightarrow> t < getNumSamples a \<Longrightarrow> getSample a c t = getSample b c t"
  shows "a = b"
proof -
  have "channelData a = channelData b"
  proof (rule nth_equalityI)
    show "length (channelData a) = length (channelData b)"
      using assms(1-3) by (simp add: ok_buffer_iff)
  next
    fix c assume "c < length (channelData a)"
    with assms(1) have c: "c < getNumChannels a" by (simp add: ok_buffer_iff)
    show "channelData a ! c = channelData b ! c"
    proof (rule nth_equalityI)
      show "length (channelData a ! c) = length (channelData b ! c)"
        using assms(1-4) c by (simp add: ok_buffer_iff)
    next
      fix t assume "t < length (channelData a ! c)"
      with assms(1) c have "t < getNumSamples a" by (simp add: ok_buffer_iff)
      from assms(5) [OF c this] show "channelData a ! c ! t = channelData b ! c ! t"
        by (simp add: getSample_def)
    qed
  qed
  with assms(3,4) show ?thesis by simp
qed

lemma fold_setSample:
  assumes "ok_buffer b" and "si < getNumSamples b" and "m \<le> getNumChannels b"
  shows "ok_buffer (fold (\<lambda>ch b. setSample ch si (fb ! (src + ch)) b) [0..<m] b) \<and>
         getNumChannels (fold (\<lambda>ch b. setSample ch si (fb ! (src + ch)) b) [0..<m] b)
           = getNumChannels b \<and>
         getNumSamples (fold (\<lambda>ch b. setSample ch si (fb ! (src + ch)) b) [0..<m] b)
           = getNumSamples b \<and>
         (\<forall>c t. c < getNumChannels b \<longrightarrow> t < getNumSamples b \<longrightarrow>
            getSample (fold (\<lambda>ch b. setSample ch si (fb ! (src + ch)) b) [0..<m] b) c t
              = (if c < m \<and> t = si then fb ! (src + c) else getSample b c t))"
  using assms(3)
proof (induction m)
  case 0
  with assms(1) show ?case by simp
next
  case (Suc m)
  let ?r = "fold (\<lambda>ch b. setSample ch si (fb ! (src + ch)) b) [0..<m] b"
  from Suc have ok: "ok_buffer ?r" and nc: "getNumChannels ?r = getNumChannels b"
    and ns: "getNumSamples ?r = getNumSamples b"
    and gs: "\<And>c t. c < getNumChannels b \<Longrightarrow> t < getNumSamples b \<Longrightarrow>
               getSample ?r c t = (if c < m \<and> t = si then fb ! (src + c) else getSample b c t)"
    by simp_all
  have step: "fold (\<lambda>ch b. setSample ch si (fb ! (src + ch)) b) [0..<Suc m] b
                = setSample m si (fb ! (src + m)) ?r"
    by simp
  from Suc.prems have m: "m < getNumChannels ?r" by (simp add: nc)
  from assms(2) have s: "si < getNumSamples ?r" by (simp add: ns)
  show ?case
  proof (intro conjI allI impI)
    show "ok_buffer (fold (\<lambda>ch b. setSample ch si (fb ! (src + ch)) b) [0..<Suc m] b)"
      by (simp only: step) (rule ok_buffer_setSample [OF ok])
    show "getNumChannels (fold (\<lambda>ch b. setSample ch si (fb ! (src + ch)) b) [0..<Suc m] b)
            = getNumChannels b"
      by (simp only: step) (simp add: nc)
    show "getNumSamples (fold (\<lambda>ch b. setSample ch si (fb ! (src + ch)) b) [0..<Suc m] b)
            = getNumSamples b"
      by (simp only: step) (simp add: ns)
  next
    fix c t assume c: "c < getNumChannels b" and t: "t < getNumSamples b"
    then have c': "c < getNumChannels ?r" and t': "t < getNumSamples ?r" by (simp_all add: nc ns)
    show "getSample (fold (\<lambda>ch b. setSample ch si (fb ! (src + ch)) b) [0..<Suc m] b) c t
            = (if c < Suc m \<and> t = si then fb ! (src + c) else getSample b c t)"
      unfolding step getSample_setSample [OF ok m s c' t'] gs [OF c t]
      by (auto simp: less_Suc_eq)
  qed
qed

lemma copyFrame_ok:
  assumes "ok_buffer b" and "si < getNumSamples b" and "src + getNumChannels b \<le> length fb"
  shows "\<exists>b1. copyFrame src (getNumChannels b) fb si b = Inr b1 \<and> ok_buffer b1 \<and>
           getNumChannels b1 = getNumChannels b \<and> getNumSamples b1 = getNumSamples b \<and>
           (\<forall>c t. c < getNumChannels b \<longrightarrow> t < getNumSamples b \<longrightarrow>
              getSample b1 c t = (if t = si then fb ! (src + c) else getSample b c t))"
  using fold_setSample [OF assms(1,2) order_refl, of fb src] assms(2,3)
  by (simp add: copyFrame_def)

lemma deinterleaveSpan_frames:
  assumes "0 < getNumChannels b" and "ok_buffer b"
    and "start + i + m * getNumChannels b \<le> length fb"
    and "si + m \<le> getNumSamples b"
  shows "\<exists>b1. deinterleaveSpan i (i + m * getNumChannels b) start (getNumChannels b) fb b si
                 = Inr (b1, si + m) \<and>
              ok_buffer b1 \<and> getNumChannels b1 = getNumChannels b \<and>
              getNumSamples b1 = getNumSamples b \<and>
              (\<forall>c t. c < getNumChannels b \<longrightarrow> t < getNumSamples b \<longrightarrow>
                 getSample b1 c t
                   = (if si \<le> t \<and> t < si + m
                      then fb ! (start + i + (t - si) * getNumChannels b + c)
                      else getSample b c t))"
  using assms
proof (induction m arbitrary: i b si)
  case 0
  then show ?case by (subst deinterleaveSpan.simps) auto
next
  case (Suc m)
  let ?C = "getNumChannels b"
  from Suc.prems have si: "si < getNumSamples b" and src: "(start + i) + ?C \<le> length fb"
    by simp_all
  from copyFrame_ok [OF Suc.prems(2) si src] obtain b1 where
    cf: "copyFrame (start + i) ?C fb si b = Inr b1" and ok1: "ok_buffer b1"
    and nc1: "getNumChannels b1 = ?C" and ns1: "getNumSamples b1 = getNumSamples b"
    and gs1: "\<And>c t. c < ?C \<Longrightarrow> t < getNumSamples b \<Longrightarrow>
                getSample b1 c t = (if t = si then fb ! (start + i + c) else getSample b c t)"
    by (auto simp: add.assoc)
  have "\<exists>b2. deinterleaveSpan (i + ?C) ((i + ?C) + m * getNumChannels b1) start
                 (getNumChannels b1) fb b1 (Suc si) = Inr (b2, Suc si + m) \<and>
              ok_buffer b2 \<and> getNumChannels b2 = getNumChannels b1 \<and>
              getNumSamples b2 = getNumSamples b1 \<and>
              (\<forall>c t. c < getNumChannels b1 \<longrightarrow> t < getNumSamples b1 \<longrightarrow>
                 getSample b2 c t
                   = (if Suc si \<le> t \<and> t < Suc si + m
                      then fb ! (start + (i + ?C) + (t - Suc si) * getNumChannels b1 + c)
                      else getSample b1 c t))"
    using Suc.prems by (intro Suc.IH) (simp_all add: ok1 nc1 ns1)
  then obtain b2 where
    ds: "deinterleaveSpan (i + ?C) (i + ?C + m * ?C) start ?C fb b1 (Suc si) = Inr (b2, Suc si + m)"
    and ok2: "ok_buffer b2" and nc2: "getNumChannels b2 = ?C"
    and ns2: "getNumSamples b2 = getNumSamples b"
    and gs2: "\<And>c t. c < ?C \<Longrightarrow> t < getNumSamples b \<Longrightarrow>
                getSample b2 c t
                   = (if Suc si \<le> t \<and> t < Suc si + m
                      then fb ! (start + (i + ?C) + (t - Suc si) * ?C + c)
                      else getSample b1 c t)"
    by (auto simp: nc1 ns1)
  have run: "deinterleaveSpan i (i + Suc m * ?C) start ?C fb b si = Inr (b2, si + Suc m)"
    using Suc.prems(1) cf ds
    by (subst deinterleaveSpan.simps) (simp add: add.assoc)
  have vals: "getSample b2 c t
                   = (if si \<le> t \<and> t < si + Suc m
                      then fb ! (start + i + (t - si) * ?C + c)
                      else getSample b c t)"
    if c: "c < ?C" and t: "t < getNumSamples b" for c t
  proof (cases "t = si")
    case True
    with gs2 [OF c t] gs1 [OF c t] show ?thesis by simp
  next
    case False
    show ?thesis
    proof (cases "Suc si \<le> t \<and> t < Suc si + m")
      case True
      then have "(t - si) * ?C = ?C + (t - Suc si) * ?C"
        by (metis Suc_diff_le Suc_le_lessD diff_Suc_Suc less_or_eq_imp_le mult_Suc)
      with True gs2 [OF c t] show ?thesis by (simp add: add.assoc add.left_commute)
    next
      case no: False
      with False gs2 [OF c t] gs1 [OF c t] show ?thesis by auto
    qed
  qed
  from run ok2 nc2 ns2 vals show ?case by blast
qed

lemma clear_buffer_ok:
  "ok_buffer (clear_buffer x)"
  "getNumChannels (clear_buffer x) = getNumChannels x"
  "getNumSamples (clear_buffer x) = getNumSamples x"
  by (simp_all add: clear_buffer_def ok_buffer_iff)

lemma planar_ok:
  "ok_buffer (planar C n xs)"
  "getNumChannels (planar C n xs) = C"
  "getNumSamples (planar C n xs) = n"
  by (simp_all add: planar_def ok_buffer_iff)

lemma getSample_planar:
  "c < C \<Longrightarrow> t < n \<Longrightarrow> getSample (planar C n xs) c t = xs ! (t * C + c)"
  by (simp add: planar_def getSample_def)

lemma deinterleaveSpan_empty:
  "deinterleaveSpan 0 0 start C fb b si = Inr (b, si)"
  by (subst deinterleaveSpan.simps) simp

lemma frame_index_lt:
  fixes c :: nat
  assumes "c < C" and "t < n"
  shows "t * C + c < n * C"
proof -
  from assms(1) have "t * C + c < Suc t * C" by simp
  also from assms(2) have "Suc t * C \<le> n * C" by (intro mult_le_mono1) simp
  finally show ?thesis .
qed



lemma planar_cong:
  assumes "\<And>j. j < n * C \<Longrightarrow> xs ! j = ys ! j"
  shows "planar C n xs = planar C n ys"
proof (rule AudioBuffer_eqI [OF planar_ok(1) planar_ok(1)])
  fix c t assume "c < getNumChannels (planar C n xs)" and "t < getNumSamples (planar C n xs)"
  then have c: "c < C" and t: "t < n" by (simp_all add: planar_ok)
  from assms [OF frame_index_lt [OF c t]]
  show "getSample (planar C n xs) c t = getSample (planar C n ys) c t"
    by (simp add: getSample_planar [OF c t])
qed (simp_all add: planar_ok)



lemma interleave_specials:
  "interleave specials (replicate 8 0)
     = [0x7FC00000, 0xFF800000, 0x7F800000, 0, 0x3F800000, 0x80000000, 0, 0]"
  by (simp add: interleave_def specials_def getSample_def upt_rec [of _ "numeral k" for k]
      upt_rec [of _ "Suc k" for k] eval_nat_numeral)


subsection \<open>Writing into the ring buffer\<close>

lemma std_copy_Inr:
  assumes "i \<le> j" and "j \<le> length src" and "pos + (j - i) \<le> length dst"
  shows "std_copy src i j dst pos
           = Inr (take pos dst @ take (j - i) (drop i src) @ drop (pos + (j - i)) dst)"
  using assms by (simp add: std_copy_def)

lemma spliced_nth:
  assumes "i \<le> j" and "j \<le> length src" and "pos + (j - i) \<le> length dst"
  shows "length (take pos dst @ take (j - i) (drop i src) @ drop (pos + (j - i)) dst) = length dst"
    and "p < length dst \<Longrightarrow>
         (take pos dst @ take (j - i) (drop i src) @ drop (pos + (j - i)) dst) ! p
           = (if pos \<le> p \<and> p < pos + (j - i) then src ! (i + (p - pos)) else dst ! p)"
proof -
  from assms show "length (take pos dst @ take (j - i) (drop i src) @ drop (pos + (j - i)) dst)
                     = length dst"
    by simp
  assume p: "p < length dst"
  from assms have l1: "length (take pos dst) = pos" by simp
  from assms have l2: "length (take (j - i) (drop i src)) = j - i" by simp
  show "(take pos dst @ take (j - i) (drop i src) @ drop (pos + (j - i)) dst) ! p
           = (if pos \<le> p \<and> p < pos + (j - i) then src ! (i + (p - pos)) else dst ! p)"
  proof (cases "p < pos")
    case True
    with p show ?thesis by (simp add: nth_append)
  next
    case False
    show ?thesis
    proof (cases "p < pos + (j - i)")
      case True
      with False have "p - pos < j - i" by simp
      with False True assms show ?thesis by (simp add: nth_append l1 l2)
    next
      case no: False
      let ?A = "take pos dst" and ?B = "take (j - i) (drop i src)"
        and ?D = "drop (pos + (j - i)) dst"
      from False have "(?A @ ?B @ ?D) ! p = (?B @ ?D) ! (p - pos)"
        by (simp only: nth_append l1) simp
      also from False no have "\<dots> = ?D ! (p - pos - (j - i))"
        by (simp only: nth_append l2) simp
      also from False no p assms have "\<dots> = dst ! p"
        by simp
      finally show ?thesis using no by simp
    qed
  qed
qed


lemma getNumReady_less: "cursorsInside f \<Longrightarrow> getNumReady f < bufferSize f"
  by (auto simp: cursorsInside_def getNumReady_def)

lemma getFreeSpace_eq: "cursorsInside f \<Longrightarrow> getNumReady f + getFreeSpace f + 1 = bufferSize f"
  by (auto simp: cursorsInside_def getNumReady_def getFreeSpace_def)

lemma finishedWrite_fields [simp]:
  "bufferSize (finishedWrite k f) = bufferSize f"
  "validStart (finishedWrite k f) = validStart f"
  "validEnd (finishedWrite k f)
     = (if bufferSize f \<le> validEnd f + k then validEnd f + k - bufferSize f else validEnd f + k)"
  by (simp_all add: finishedWrite_def Let_def)

lemma finishedRead_fields [simp]:
  "bufferSize (finishedRead k f) = bufferSize f"
  "validEnd (finishedRead k f) = validEnd f"
  "validStart (finishedRead k f)
     = (if bufferSize f \<le> validStart f + k then validStart f + k - bufferSize f
        else validStart f + k)"
  by (simp_all add: finishedRead_def Let_def)

lemma finishedWrite_effect:
  assumes "cursorsInside f" and "k \<le> getFreeSpace f"
  shows "cursorsInside (finishedWrite k f) \<and> getNumReady (finishedWrite k f) = getNumReady f + k"
proof (cases "validStart f \<le> validEnd f")
  case True
  with assms show ?thesis
    by (simp add: cursorsInside_def getNumReady_def getFreeSpace_def) arith
next
  case False
  with assms show ?thesis
    by (simp add: cursorsInside_def getNumReady_def getFreeSpace_def) arith
qed

lemma finishedRead_effect:
  assumes "cursorsInside f" and "k \<le> getNumReady f"
  shows "cursorsInside (finishedRead k f) \<and> getNumReady (finishedRead k f) = getNumReady f - k"
proof (cases "validStart f \<le> validEnd f")
  case True
  with assms show ?thesis
    by (simp add: cursorsInside_def getNumReady_def) arith
next
  case False
  with assms show ?thesis
    by (simp add: cursorsInside_def getNumReady_def) arith
qed

lemma prepareToWrite_spans:
  assumes "cursorsInside f" and "k \<le> getFreeSpace f" and "0 < k"
  shows "prepareToWrite k f
           = (validEnd f, min (bufferSize f - validEnd f) k, 0,
              k - min (bufferSize f - validEnd f) k)"
proof -
  from assms have m: "min k (getFreeSpace f) = k" by simp
  have "min (k - min (bufferSize f - validEnd f) k) (validStart f)
          = k - min (bufferSize f - validEnd f) k"
    using assms by (simp add: cursorsInside_def getNumReady_def getFreeSpace_def split: if_splits)
  with assms(3) show ?thesis
    by (simp add: prepareToWrite_def Let_def m)
qed

lemma prepareToRead_spans:
  assumes "cursorsInside f" and "k \<le> getNumReady f" and "0 < k"
  shows "prepareToRead k f
           = (validStart f, min (bufferSize f - validStart f) k, 0,
              k - min (bufferSize f - validStart f) k)"
proof -
  from assms have m: "min k (getNumReady f) = k" by simp
  have "min (k - min (bufferSize f - validStart f) k) (validEnd f)
          = k - min (bufferSize f - validStart f) k"
    using assms by (simp add: cursorsInside_def getNumReady_def split: if_splits)
  with assms(3) show ?thesis
    by (simp add: prepareToRead_def Let_def m)
qed

lemma wrap_mod:
  fixes a :: nat
  assumes "a < B" and "j < B"
  shows "(a + j < B \<and> (a + j) mod B = a + j) \<or> (B \<le> a + j \<and> (a + j) mod B + B = a + j)"
proof (cases "a + j < B")
  case True
  then show ?thesis by simp
next
  case False
  then have "(a + j) mod B = (a + j - B) mod B" by (simp add: le_mod_geq)
  also from assms have "a + j - B < B" by linarith
  then have "(a + j - B) mod B = a + j - B" by simp
  finally show ?thesis using False by simp
qed

text \<open>
  The arithmetic of a write of \<open>K\<close> items in two spans \<open>s1\<close>, \<open>s2\<close> behind \<open>nr\<close> waiting
  items, stated with sums only.
\<close>

lemma ring_old:
  fixes vs ve B K j nr s1 s2 p :: nat
  assumes "vs < B" and "ve < B"
    and nr: "(vs \<le> ve \<and> vs + nr = ve) \<or> (ve < vs \<and> vs + nr = B + ve)"
    and K: "nr + K + 1 \<le> B"
    and s: "s1 + s2 = K" "ve + s1 \<le> B" "s2 = 0 \<or> ve + s1 = B"
    and j: "j < nr"
    and p: "(vs + j < B \<and> p = vs + j) \<or> (B \<le> vs + j \<and> p + B = vs + j)"
  shows "s2 \<le> p \<and> (p < ve \<or> ve + s1 \<le> p)"
proof -
  from nr show ?thesis
  proof
    assume a: "vs \<le> ve \<and> vs + nr = ve"
    with j assms(2) p have "p = vs + j" by linarith
    with a j K s show ?thesis by linarith
  next
    assume a: "ve < vs \<and> vs + nr = B + ve"
    with K have "K + ve + 1 \<le> vs" by linarith
    with s assms(1) have s2: "s2 = 0" and s1: "s1 = K" by linarith+
    from p show ?thesis
    proof
      assume "vs + j < B \<and> p = vs + j"
      with a K s1 s2 show ?thesis by linarith
    next
      assume "B \<le> vs + j \<and> p + B = vs + j"
      with a j s2 show ?thesis by linarith
    qed
  qed
qed

lemma ring_new:
  fixes vs ve B K j nr s1 s2 p :: nat
  assumes "vs < B" and "ve < B"
    and nr: "(vs \<le> ve \<and> vs + nr = ve) \<or> (ve < vs \<and> vs + nr = B + ve)"
    and K: "nr + K + 1 \<le> B"
    and s: "s1 + s2 = K" "ve + s1 \<le> B" "s2 = 0 \<or> ve + s1 = B"
    and j: "nr \<le> j" "j < nr + K"
    and p: "(vs + j < B \<and> p = vs + j) \<or> (B \<le> vs + j \<and> p + B = vs + j)"
  shows "(p < s2 \<and> s1 + p + nr = j) \<or>
         (s2 \<le> p \<and> ve \<le> p \<and> p < ve + s1 \<and> p + nr = j + ve)"
proof -
  from nr show ?thesis
  proof
    assume a: "vs \<le> ve \<and> vs + nr = ve"
    from p show ?thesis
    proof
      assume b: "vs + j < B \<and> p = vs + j"
      from s(3) have "s2 \<le> p"
      proof
        assume "s2 = 0" then show ?thesis by simp
      next
        assume "ve + s1 = B"
        with a K s(1) b show ?thesis by linarith
      qed
      moreover from a b j have "ve \<le> p" "p + nr = j + ve" by linarith+
      moreover from s(3) have "p < ve + s1"
      proof
        assume "s2 = 0"
        with s(1) a b j show ?thesis by linarith
      next
        assume "ve + s1 = B"
        with b show ?thesis by linarith
      qed
      ultimately show ?thesis by blast
    next
      assume b: "B \<le> vs + j \<and> p + B = vs + j"
      with a j s have "ve + s1 = B" by linarith
      with a b j s have "p < s2" "s1 + p + nr = j" by linarith+
      then show ?thesis by blast
    qed
  next
    assume a: "ve < vs \<and> vs + nr = B + ve"
    with K have "K + ve + 1 \<le> vs" by linarith
    with s assms(1) have s2: "s2 = 0" and s1: "s1 = K" by linarith+
    from a j assms(2) p have b: "p + B = vs + j" by linarith
    with a j s1 s2 have "s2 \<le> p" "ve \<le> p" "p < ve + s1" "p + nr = j + ve" by linarith+
    then show ?thesis by blast
  qed
qed

lemma length_fifoContents [simp]: "length (fifoContents f fb) = getNumReady f"
  by (simp add: fifoContents_def)

lemma nth_fifoContents:
  "j < getNumReady f \<Longrightarrow> fifoContents f fb ! j = fb ! ((validStart f + j) mod bufferSize f)"
  by (simp add: fifoContents_def)

lemma getNumReady_sum:
  assumes "cursorsInside f"
  shows "(validStart f \<le> validEnd f \<and> validStart f + getNumReady f = validEnd f) \<or>
         (validEnd f < validStart f \<and> validStart f + getNumReady f = bufferSize f + validEnd f)"
  using assms by (auto simp: cursorsInside_def getNumReady_def)

lemma finishedWrite_zero: "cursorsInside f \<Longrightarrow> finishedWrite 0 f = f"
  by (simp add: finishedWrite_def cursorsInside_def)

lemma two_spans:
  fixes ve B K :: nat
  assumes "ve < B"
  shows "min (B - ve) K + (K - min (B - ve) K) = K"
    and "ve + min (B - ve) K \<le> B"
    and "K - min (B - ve) K = 0 \<or> ve + min (B - ve) K = B"
    and "0 < K \<Longrightarrow> 0 < min (B - ve) K"
  using assms by (auto simp: min_def)

text \<open>What the two \<open>std::copy\<close> calls of lines 153 to 164 leave in \<open>fifoBuffer\<close>.\<close>

lemma two_copies:
  assumes s1: "s1 \<le> length temp" "ve + s1 \<le> length fb" "0 < s1"
    and s2: "s1 + s2 \<le> length temp" "s2 \<le> ve" "s2 \<le> length fb"
  shows "\<exists>fb1 fb2.
           std_copy temp 0 s1 fb ve = Inr fb1 \<and>
           (if s2 > 0 then std_copy temp s1 (s1 + s2) fb1 0 else Inr fb1) = Inr fb2 \<and>
           length fb2 = length fb \<and>
           (\<forall>p. p < length fb \<longrightarrow>
              fb2 ! p = (if p < s2 then temp ! (s1 + p)
                         else if ve \<le> p \<and> p < ve + s1 then temp ! (p - ve) else fb ! p))"
proof -
  define fb1 where "fb1 = take ve fb @ take (s1 - 0) (drop 0 temp) @ drop (ve + (s1 - 0)) fb"
  have c1: "std_copy temp 0 s1 fb ve = Inr fb1"
    unfolding fb1_def by (rule std_copy_Inr) (use s1 in simp_all)
  have l1: "length fb1 = length fb"
    unfolding fb1_def by (rule spliced_nth(1)) (use s1 in simp_all)
  have n1: "fb1 ! p = (if ve \<le> p \<and> p < ve + s1 then temp ! (p - ve) else fb ! p)"
    if "p < length fb" for p
    unfolding fb1_def using spliced_nth(2) [of 0 s1 temp ve fb p] s1 that by simp
  show ?thesis
  proof (cases "s2 > 0")
    case False
    from False n1 have "\<forall>p. p < length fb \<longrightarrow>
              fb1 ! p = (if p < s2 then temp ! (s1 + p)
                         else if ve \<le> p \<and> p < ve + s1 then temp ! (p - ve) else fb ! p)"
      by simp
    with c1 l1 False show ?thesis by auto
  next
    case True
    define fb2 where
      "fb2 = take 0 fb1 @ take (s1 + s2 - s1) (drop s1 temp) @ drop (0 + (s1 + s2 - s1)) fb1"
    have c2: "std_copy temp s1 (s1 + s2) fb1 0 = Inr fb2"
      unfolding fb2_def by (rule std_copy_Inr) (use s2 l1 in simp_all)
    have l2: "length fb2 = length fb1"
      unfolding fb2_def by (rule spliced_nth(1)) (use s2 l1 in simp_all)
    have n2: "fb2 ! p = (if p < s2 then temp ! (s1 + p) else fb1 ! p)"
      if "p < length fb" for p
    proof -
      from that l1 have "p < length fb1" by simp
      from spliced_nth(2) [of s1 "s1 + s2" temp 0 fb1 p, OF _ _ _ this] s2 l1
      show ?thesis unfolding fb2_def by simp
    qed
    have "\<forall>p. p < length fb \<longrightarrow>
             fb2 ! p = (if p < s2 then temp ! (s1 + p)
                         else if ve \<le> p \<and> p < ve + s1 then temp ! (p - ve) else fb ! p)"
      using n2 n1 by simp
    moreover from l1 l2 have "length fb2 = length fb" by simp
    moreover from True c2 have "(if s2 > 0 then std_copy temp s1 (s1 + s2) fb1 0 else Inr fb1) = Inr fb2"
      by simp
    ultimately show ?thesis using c1 by blast
  qed
qed

lemma fifoWrite_result:
  assumes ci: "cursorsInside fifo" and C: "0 < C"
    and lfb: "bufferSize fifo \<le> length fb" and lt: "received * C \<le> length temp"
    and K: "K = min received (getFreeSpace fifo div C) * C"
  shows "\<exists>fb1. fifoWrite received C temp fifo fb = Inr (finishedWrite K fifo, fb1) \<and>
               length fb1 = length fb \<and>
               fifoContents (finishedWrite K fifo) fb1 = fifoContents fifo fb @ take K temp"
proof (cases "min received (getFreeSpace fifo div C) = 0")
  case True
  with K have "K = 0" by simp
  with True C ci show ?thesis
    by (simp add: fifoWrite_def Let_def finishedWrite_zero del: min_less_iff_conj)
next
  case False
  let ?B = "bufferSize fifo" and ?vs = "validStart fifo" and ?ve = "validEnd fifo"
  let ?nr = "getNumReady fifo"
  from False C K have Kpos: "0 < K" by simp
  have Kfree: "K \<le> getFreeSpace fifo"
    unfolding K by (rule min_div_mult_le)
  have "K \<le> received * C" unfolding K by (intro mult_le_mono1) simp
  with lt have Ktemp: "K \<le> length temp" by simp
  from ci have ve: "?ve < ?B" and vs: "?vs < ?B" by (simp_all add: cursorsInside_def)
  define s1 where "s1 = min (?B - ?ve) K"
  define s2 where "s2 = K - s1"
  note sp = two_spans [OF ve, of K, folded s1_def, folded s2_def]
  from sp(4) Kpos have s1pos: "0 < s1" by simp
  from getFreeSpace_eq [OF ci] Kfree have room: "?nr + K + 1 \<le> ?B" by simp
  have pw: "prepareToWrite K fifo = (?ve, s1, 0, s2)"
    unfolding s1_def s2_def by (rule prepareToWrite_spans [OF ci Kfree Kpos])
  have s2ve: "s2 \<le> ?ve"
  proof (cases "s2 = 0")
    case True then show ?thesis by simp
  next
    case False
    with sp(3) have "?ve + s1 = ?B" by simp
    with sp(1) room getNumReady_sum [OF ci] show ?thesis by linarith
  qed
  have "s1 \<le> length temp" "?ve + s1 \<le> length fb" "s1 + s2 \<le> length temp" "s2 \<le> length fb"
    using sp(1,2) Ktemp lfb s2ve ve by linarith+
  from two_copies [OF this(1,2) s1pos this(3) s2ve this(4)] obtain fb1 fb2 where
    c1: "std_copy temp 0 s1 fb ?ve = Inr fb1"
    and c2: "(if s2 > 0 then std_copy temp s1 (s1 + s2) fb1 0 else Inr fb1) = Inr fb2"
    and l2: "length fb2 = length fb"
    and n2: "\<And>p. p < length fb \<Longrightarrow>
              fb2 ! p = (if p < s2 then temp ! (s1 + p)
                         else if ?ve \<le> p \<and> p < ?ve + s1 then temp ! (p - ?ve) else fb ! p)"
    by blast
  have run: "fifoWrite received C temp fifo fb = Inr (finishedWrite K fifo, fb2)"
    using C False Kpos s1pos c1 c2 K
    by (simp add: fifoWrite_def Let_def pw [unfolded K] del: min_less_iff_conj)
  let ?f1 = "finishedWrite K fifo"
  from finishedWrite_effect [OF ci Kfree] have nr1: "getNumReady ?f1 = ?nr + K" by simp
  have "fifoContents ?f1 fb2 = fifoContents fifo fb @ take K temp"
  proof (rule nth_equalityI)
    show "length (fifoContents ?f1 fb2) = length (fifoContents fifo fb @ take K temp)"
      using nr1 Ktemp by simp
  next
    fix j assume "j < length (fifoContents ?f1 fb2)"
    with nr1 have j: "j < ?nr + K" by simp
    define p where "p = (?vs + j) mod ?B"
    from j room have jB: "j < ?B" by simp
    from wrap_mod [OF vs jB] have pw: "(?vs + j < ?B \<and> p = ?vs + j) \<or> (?B \<le> ?vs + j \<and> p + ?B = ?vs + j)"
      by (simp add: p_def)
    from vs have "p < ?B" by (simp add: p_def)
    with lfb have pl: "p < length fb" by simp
    have lhs: "fifoContents ?f1 fb2 ! j = fb2 ! p"
      using j nr1 by (simp add: nth_fifoContents p_def)
    show "fifoContents ?f1 fb2 ! j = (fifoContents fifo fb @ take K temp) ! j"
    proof (cases "j < ?nr")
      case True
      from ring_old [OF vs ve getNumReady_sum [OF ci] room sp(1,2,3) True pw]
      have "s2 \<le> p \<and> (p < ?ve \<or> ?ve + s1 \<le> p)" .
      with n2 [OF pl] have "fb2 ! p = fb ! p" by auto
      with True lhs show ?thesis by (simp add: nth_append nth_fifoContents p_def)
    next
      case False
      then have ge: "?nr \<le> j" by simp
      from ring_new [OF vs ve getNumReady_sum [OF ci] room sp(1,2,3) ge j pw]
      have "(p < s2 \<and> s1 + p + ?nr = j) \<or>
            (s2 \<le> p \<and> ?ve \<le> p \<and> p < ?ve + s1 \<and> p + ?nr = j + ?ve)" .
      then have "fb2 ! p = temp ! (j - ?nr)"
      proof
        assume a: "p < s2 \<and> s1 + p + ?nr = j"
        then have "s1 + p = j - ?nr" by linarith
        with a n2 [OF pl] show ?thesis by simp
      next
        assume a: "s2 \<le> p \<and> ?ve \<le> p \<and> p < ?ve + s1 \<and> p + ?nr = j + ?ve"
        then have "p - ?ve = j - ?nr" by linarith
        with a n2 [OF pl] show ?thesis by simp
      qed
      moreover from j ge have "j - ?nr < K" by linarith
      ultimately show ?thesis using False lhs by (simp add: nth_append)
    qed
  qed
  with run l2 show ?thesis by blast
qed

lemma receiveBoundedD:
  assumes "receiveBounded st" and "st_receiveSamples st t m e = (k, t1, e1)"
  shows "k \<le> m" and "length t1 = length t"
proof -
  from assms(1) have "\<forall>maxSamples e.
        case st_receiveSamples st t maxSamples e of
          (k, tempBuffer1, e1) \<Rightarrow> k \<le> maxSamples \<and> length tempBuffer1 = length t"
    unfolding receiveBounded_def by (rule spec)
  then have "\<forall>e. case st_receiveSamples st t m e of
          (k, tempBuffer1, e1) \<Rightarrow> k \<le> m \<and> length tempBuffer1 = length t"
    by (rule spec)
  then have "case st_receiveSamples st t m e of
          (k, tempBuffer1, e1) \<Rightarrow> k \<le> m \<and> length tempBuffer1 = length t"
    by (rule spec)
  with assms(2) show "k \<le> m" and "length t1 = length t" by simp_all
qed

lemma finishedWrite_aligned:
  assumes "C dvd bufferSize f" and "C dvd validEnd f" and "C dvd K"
  shows "C dvd validEnd (finishedWrite K f)"
  using assms by (auto intro: dvd_diff_nat)

lemma finishedRead_aligned:
  assumes "C dvd bufferSize f" and "C dvd validStart f" and "C dvd K"
  shows "C dvd validStart (finishedRead K f)"
  using assms by (auto intro: dvd_diff_nat)

lemma drain_total:
  assumes rc: "receiveContract st" and rb: "receiveBounded st" and C: "0 < C"
  shows "cursorsInside fifo \<Longrightarrow> bufferSize fifo \<le> length fb \<Longrightarrow> n * 2 * C \<le> length temp \<Longrightarrow>
         \<exists>e2 fifo2 fb2 xs.
           drain st n C temp e fifo fb = Some (Inr (e2, fifo2, fb2)) \<and>
           cursorsInside fifo2 \<and> bufferSize fifo2 = bufferSize fifo \<and>
           validStart fifo2 = validStart fifo \<and> length fb2 = length fb \<and>
           fifoContents fifo2 fb2 = fifoContents fifo fb @ xs \<and>
           (C dvd bufferSize fifo \<longrightarrow> C dvd validEnd fifo \<longrightarrow> C dvd validEnd fifo2)"
proof (induction "st_numSamples st e" arbitrary: temp e fifo fb rule: less_induct)
  case less
  note ci = less.prems(1) and lfb = less.prems(2) and lt = less.prems(3)
  show ?case
  proof (cases "st_numSamples st e > 0")
    case False
    then have "drain st n C temp e fifo fb = Some (Inr (e, fifo, fb))"
      by (subst drain.simps) simp
    with ci show ?thesis by simp
  next
    case True
    obtain k t1 e1 where r: "st_receiveSamples st temp (n * 2) e = (k, t1, e1)"
      by (cases "st_receiveSamples st temp (n * 2) e") auto
    note b = receiveBoundedD [OF rb r]
    show ?thesis
    proof (cases "k = 0")
      case k0: True
      with r True have "drain st n C temp e fifo fb = Some (Inr (e1, fifo, fb))"
        by (subst drain.simps) simp
      with ci show ?thesis by simp
    next
      case False
      with b(1) have "1 \<le> n * 2" by simp
      from receiveContractD [OF rc this r] False True
      have lt': "st_numSamples st e1 < st_numSamples st e" by simp
      define K where "K = min k (getFreeSpace fifo div C) * C"
      have "k * C \<le> n * 2 * C" by (rule mult_le_mono1 [OF b(1)])
      with lt b(2) have kt: "k * C \<le> length t1" by linarith
      from fifoWrite_result [OF ci C lfb kt K_def] obtain fb1 where
        fw: "fifoWrite k C t1 fifo fb = Inr (finishedWrite K fifo, fb1)"
        and l1: "length fb1 = length fb"
        and c1: "fifoContents (finishedWrite K fifo) fb1 = fifoContents fifo fb @ take K t1"
        by blast
      let ?f1 = "finishedWrite K fifo"
      have Kfree: "K \<le> getFreeSpace fifo" unfolding K_def by (rule min_div_mult_le)
      from finishedWrite_effect [OF ci Kfree] have ci1: "cursorsInside ?f1" by simp
      have lfb1: "bufferSize ?f1 \<le> length fb1" using lfb l1 by simp
      have lt1: "n * 2 * C \<le> length t1" using lt b(2) by linarith
      from less.hyps [OF lt' ci1 lfb1 lt1] obtain e2 fifo2 fb2 xs where
        d: "drain st n C t1 e1 ?f1 fb1 = Some (Inr (e2, fifo2, fb2))"
        and i: "cursorsInside fifo2" "bufferSize fifo2 = bufferSize ?f1"
          "validStart fifo2 = validStart ?f1" "length fb2 = length fb1"
          "fifoContents fifo2 fb2 = fifoContents ?f1 fb1 @ xs"
          "C dvd bufferSize ?f1 \<longrightarrow> C dvd validEnd ?f1 \<longrightarrow> C dvd validEnd fifo2"
        by blast
      have run: "drain st n C temp e fifo fb = Some (Inr (e2, fifo2, fb2))"
        using True r False fw d by (subst drain.simps) simp
      have al: "C dvd bufferSize fifo \<longrightarrow> C dvd validEnd fifo \<longrightarrow> C dvd validEnd fifo2"
      proof (intro impI)
        assume a: "C dvd bufferSize fifo" "C dvd validEnd fifo"
        have "C dvd K" by (simp add: K_def)
        from finishedWrite_aligned [OF a this] a(1) i(6) show "C dvd validEnd fifo2" by simp
      qed
      from i(5) c1 have "fifoContents fifo2 fb2 = fifoContents fifo fb @ (take K t1 @ xs)"
        by simp
      with run i(1-4) l1 al show ?thesis by auto
    qed
  qed
qed

text \<open>
  C3. One round of the drain loop, for a ring buffer with its cursors inside, at least one
  channel, and a batch of \<open>received\<close> frames that lies inside the receiving vector:
  lines 144 to 167 commit \<open>min received (freeSpace div numChannels)\<close> whole frames, which
  is no more than the free space; the committed samples are the front of the batch,
  appended behind what was waiting, and the rest of the batch is dropped; the buffers
  keep their sizes and the occupancy stays below the capacity. The whole loop, for an
  engine that keeps both contracts, returns with the occupancy below the unchanged
  capacity.
\<close>

theorem drain_commit_bounded:
  assumes "cursorsInside fifo" and "0 < numChannels" and "bufferSize fifo \<le> length fb"
    and "received * numChannels \<le> length tempBuffer"
  shows "(\<exists>fifo1 fb1.
            fifoWrite received numChannels tempBuffer fifo fb = Inr (fifo1, fb1) \<and>
            getNumReady fifo1
              = getNumReady fifo + min received (getFreeSpace fifo div numChannels) * numChannels \<and>
            min received (getFreeSpace fifo div numChannels) * numChannels \<le> getFreeSpace fifo \<and>
            fifoContents fifo1 fb1
              = fifoContents fifo fb
                @ take (min received (getFreeSpace fifo div numChannels) * numChannels) tempBuffer \<and>
            getTotalSize fifo1 = getTotalSize fifo \<and> length fb1 = length fb \<and>
            getNumReady fifo1 < getTotalSize fifo1) \<and>
         (receiveContract st \<and> receiveBounded st \<and>
          numSamples * 2 * numChannels \<le> length tempBuffer \<longrightarrow>
            (\<exists>e2 fifo2 fb2.
               drain st numSamples numChannels tempBuffer e fifo fb = Some (Inr (e2, fifo2, fb2)) \<and>
               getNumReady fifo2 < getTotalSize fifo2 \<and>
               getTotalSize fifo2 = getTotalSize fifo \<and> length fb2 = length fb))"
proof (intro conjI impI)
  define K where "K = min received (getFreeSpace fifo div numChannels) * numChannels"
  from fifoWrite_result [OF assms K_def] obtain fb1 where
    fw: "fifoWrite received numChannels tempBuffer fifo fb = Inr (finishedWrite K fifo, fb1)"
    and l1: "length fb1 = length fb"
    and c1: "fifoContents (finishedWrite K fifo) fb1 = fifoContents fifo fb @ take K tempBuffer"
    by blast
  have Kfree: "K \<le> getFreeSpace fifo" unfolding K_def by (rule min_div_mult_le)
  note fe = finishedWrite_effect [OF assms(1) Kfree]
  from fe getNumReady_less [of "finishedWrite K fifo"]
  have "getNumReady (finishedWrite K fifo) < getTotalSize (finishedWrite K fifo)"
    by (simp add: getTotalSize_def)
  with fw l1 c1 fe Kfree
  show "\<exists>fifo1 fb1.
            fifoWrite received numChannels tempBuffer fifo fb = Inr (fifo1, fb1) \<and>
            getNumReady fifo1
              = getNumReady fifo + min received (getFreeSpace fifo div numChannels) * numChannels \<and>
            min received (getFreeSpace fifo div numChannels) * numChannels \<le> getFreeSpace fifo \<and>
            fifoContents fifo1 fb1
              = fifoContents fifo fb
                @ take (min received (getFreeSpace fifo div numChannels) * numChannels) tempBuffer \<and>
            getTotalSize fifo1 = getTotalSize fifo \<and> length fb1 = length fb \<and>
            getNumReady fifo1 < getTotalSize fifo1"
    unfolding K_def [symmetric] by (intro exI [of _ "finishedWrite K fifo"] exI [of _ fb1])
      (simp add: getTotalSize_def)
next
  assume a: "receiveContract st \<and> receiveBounded st \<and>
          numSamples * 2 * numChannels \<le> length tempBuffer"
  then have rc: "receiveContract st" and rb: "receiveBounded st"
    and lt: "numSamples * 2 * numChannels \<le> length tempBuffer" by simp_all
  from drain_total [OF rc rb assms(2) assms(1) assms(3) lt, of e] obtain e2 fifo2 fb2 where
    d: "drain st numSamples numChannels tempBuffer e fifo fb = Some (Inr (e2, fifo2, fb2))"
    and i: "cursorsInside fifo2" "bufferSize fifo2 = bufferSize fifo" "length fb2 = length fb"
    by blast
  from getNumReady_less [OF i(1)] i(2,3) d
  show "\<exists>e2 fifo2 fb2.
               drain st numSamples numChannels tempBuffer e fifo fb = Some (Inr (e2, fifo2, fb2)) \<and>
               getNumReady fifo2 < getTotalSize fifo2 \<and>
               getTotalSize fifo2 = getTotalSize fifo \<and> length fb2 = length fb"
    by (simp add: getTotalSize_def)
qed

theorem drain_commit_bounded_witness:
  "cursorsInside \<lparr>bufferSize = 16384, validStart = 10, validEnd = 4\<rparr> \<and>
   (0::nat) < 2 \<and>
   bufferSize \<lparr>bufferSize = 16384, validStart = 10, validEnd = 4\<rparr>
     \<le> length (replicate 32768 (0::sample)) \<and>
   3 * 2 \<le> length [1, 2, 3, 4, 5, 6, 7, 8 :: sample] \<and>
   getFreeSpace \<lparr>bufferSize = 16384, validStart = 10, validEnd = 4\<rparr> = 5 \<and>
   (\<exists>fifo1 fb1.
      fifoWrite 3 2 [1, 2, 3, 4, 5, 6, 7, 8] \<lparr>bufferSize = 16384, validStart = 10, validEnd = 4\<rparr>
        (replicate 32768 0) = Inr (fifo1, fb1) \<and>
      getNumReady fifo1 = 16378 + 4 \<and>
      fifoContents fifo1 fb1
        = fifoContents \<lparr>bufferSize = 16384, validStart = 10, validEnd = 4\<rparr> (replicate 32768 0)
          @ [1, 2, 3, 4] \<and>
      getNumReady fifo1 < getTotalSize fifo1)"
proof -
  let ?f = "\<lparr>bufferSize = 16384, validStart = 10, validEnd = 4\<rparr>"
  have h: "cursorsInside ?f" "(0::nat) < 2" "bufferSize ?f \<le> length (replicate 32768 (0::sample))"
    "3 * 2 \<le> length [1, 2, 3, 4, 5, 6, 7, 8 :: sample]"
    by (simp_all add: cursorsInside_def)
  have g: "getFreeSpace ?f = 5" "getNumReady ?f = 16378"
    by (simp_all add: getFreeSpace_def getNumReady_def)
  have m: "min 3 (5 div 2) * 2 = (4::nat)" by simp
  have t: "take 4 [1, 2, 3, 4, 5, 6, 7, 8 :: sample] = [1, 2, 3, 4]" by simp
  from drain_commit_bounded [OF h, THEN conjunct1] obtain fifo1 fb1 where
    "fifoWrite 3 2 [1, 2, 3, 4, 5, 6, 7, 8] ?f (replicate 32768 0) = Inr (fifo1, fb1)"
    "getNumReady fifo1 = 16378 + 4"
    "fifoContents fifo1 fb1 = fifoContents ?f (replicate 32768 0) @ [1, 2, 3, 4]"
    "getNumReady fifo1 < getTotalSize fifo1"
    unfolding g m t by blast
  with h g(1) show ?thesis by blast
qed

subsection \<open>The two outcomes of a block\<close>

text \<open>Two spans of whole frames, read into a block of the same shape.\<close>

lemma deinterleave_two_spans:
  assumes ok: "ok_buffer y" and C: "0 < getNumChannels y"
    and n: "m1 + m2 = getNumSamples y"
    and l1: "start1 + m1 * getNumChannels y \<le> length fb"
    and l2: "start2 + m2 * getNumChannels y \<le> length fb"
  shows "\<exists>b2. deinterleave start1 (m1 * getNumChannels y) start2 (m2 * getNumChannels y)
                 (getNumChannels y) fb y = Inr b2 \<and>
              ok_buffer b2 \<and> getNumChannels b2 = getNumChannels y \<and>
              getNumSamples b2 = getNumSamples y \<and>
              (\<forall>c t. c < getNumChannels y \<longrightarrow> t < getNumSamples y \<longrightarrow>
                 getSample b2 c t
                   = (if t < m1 then fb ! (start1 + t * getNumChannels y + c)
                      else fb ! (start2 + (t - m1) * getNumChannels y + c)))"
proof -
  let ?C = "getNumChannels y" and ?n = "getNumSamples y"
  from n have "0 + m1 \<le> ?n" by simp
  from deinterleaveSpan_frames [OF C ok, of start1 0 m1 fb 0] l1 this
  obtain b1 where
    d1: "deinterleaveSpan 0 (m1 * ?C) start1 ?C fb y 0 = Inr (b1, m1)"
    and ok1: "ok_buffer b1" and nc1: "getNumChannels b1 = ?C" and ns1: "getNumSamples b1 = ?n"
    and gs1: "\<And>c t. c < ?C \<Longrightarrow> t < ?n \<Longrightarrow>
               getSample b1 c t = (if t < m1 then fb ! (start1 + t * ?C + c) else getSample y c t)"
    by auto
  from C nc1 have C1: "0 < getNumChannels b1" by simp
  from l2 nc1 have l2': "start2 + 0 + m2 * getNumChannels b1 \<le> length fb" by simp
  from n ns1 have n': "m1 + m2 \<le> getNumSamples b1" by simp
  from deinterleaveSpan_frames [OF C1 ok1 l2' n']
  obtain b2 where
    d2: "deinterleaveSpan 0 (m2 * ?C) start2 ?C fb b1 m1 = Inr (b2, m1 + m2)"
    and ok2: "ok_buffer b2" and nc2: "getNumChannels b2 = ?C" and ns2: "getNumSamples b2 = ?n"
    and gs2: "\<And>c t. c < ?C \<Longrightarrow> t < ?n \<Longrightarrow>
               getSample b2 c t = (if m1 \<le> t \<and> t < m1 + m2 then fb ! (start2 + (t - m1) * ?C + c)
                                   else getSample b1 c t)"
    by (auto simp: nc1 ns1)
  have run: "deinterleave start1 (m1 * ?C) start2 (m2 * ?C) ?C fb y = Inr b2"
    by (simp add: deinterleave_def d1 d2)
  have "getSample b2 c t = (if t < m1 then fb ! (start1 + t * ?C + c)
                            else fb ! (start2 + (t - m1) * ?C + c))"
    if c: "c < ?C" and t: "t < ?n" for c t
    using gs2 [OF c t] gs1 [OF c t] t n by auto
  with run ok2 nc2 ns2 show ?thesis by blast
qed

lemma frames_le_ready:
  fixes n :: nat
  assumes "n \<le> r div C"
  shows "n * C \<le> r"
proof -
  from assms have "n * C \<le> r div C * C" by (rule mult_le_mono1)
  also have "\<dots> \<le> r" by simp
  finally show ?thesis .
qed

lemma finishedRead_contents:
  assumes ci: "cursorsInside fifo" and K: "K \<le> getNumReady fifo"
  shows "fifoContents (finishedRead K fifo) fb = drop K (fifoContents fifo fb)"
proof (rule nth_equalityI)
  note fe = finishedRead_effect [OF ci K]
  show "length (fifoContents (finishedRead K fifo) fb) = length (drop K (fifoContents fifo fb))"
    using fe by simp
  fix j assume "j < length (fifoContents (finishedRead K fifo) fb)"
  with fe have j: "j < getNumReady fifo - K" by simp
  let ?B = "bufferSize fifo" and ?vs = "validStart fifo"
  from ci have vs: "?vs < ?B" by (simp add: cursorsInside_def)
  from K getNumReady_less [OF ci] have KB: "K < ?B" by simp
  from wrap_mod [OF vs KB]
  have v: "validStart (finishedRead K fifo) = (?vs + K) mod ?B"
    by (auto simp: not_less)
  from j fe have "j < getNumReady (finishedRead K fifo)" by simp
  then have "fifoContents (finishedRead K fifo) fb ! j
        = fb ! ((validStart (finishedRead K fifo) + j) mod bufferSize (finishedRead K fifo))"
    by (rule nth_fifoContents)
  also have "\<dots> = fb ! (((?vs + K) mod ?B + j) mod ?B)"
    unfolding v by simp
  also have "((?vs + K) mod ?B + j) mod ?B = (?vs + (K + j)) mod ?B"
    by (simp add: mod_add_left_eq add.assoc)
  also from j K have "fb ! ((?vs + (K + j)) mod ?B) = fifoContents fifo fb ! (K + j)"
    by (simp add: nth_fifoContents)
  also from j K have "\<dots> = drop K (fifoContents fifo fb) ! j" by simp
  finally show "fifoContents (finishedRead K fifo) fb ! j = drop K (fifoContents fifo fb) ! j" .
qed

lemma read_spans_frames:
  fixes C n B vs :: nat
  assumes C: "0 < C" and al: "C dvd B" "C dvd vs" and vs: "vs < B"
  shows "\<exists>m1 m2. m1 + m2 = n \<and> min (B - vs) (n * C) = m1 * C \<and>
                  n * C - min (B - vs) (n * C) = m2 * C \<and>
                  (m2 = 0 \<or> vs + m1 * C = B)"
proof (cases "B - vs \<le> n * C")
  case True
  from al have "C dvd B - vs" by (rule dvd_diff_nat)
  then obtain m1 where m1: "B - vs = m1 * C" by (auto simp: dvd_def mult.commute)
  with True C have le: "m1 \<le> n" by simp
  have "n * C - m1 * C = (n - m1) * C" by (simp add: diff_mult_distrib)
  moreover from m1 vs have "vs + m1 * C = B" by simp
  ultimately show ?thesis using True m1 le
    by (intro exI [of _ m1] exI [of _ "n - m1"]) (simp add: min_def)
next
  case False
  then show ?thesis
    by (intro exI [of _ n] exI [of _ 0]) (simp add: min_def)
qed

lemma deliver_passthrough:
  assumes "outputFifo w = Some fifo" and "0 < getNumChannels b"
    and "getNumReady fifo div getNumChannels b < getNumSamples b"
  shows "deliver b w = Inr (PASSTHROUGH, b, w)"
  using assms by (simp add: deliver_def Let_def)

lemma deliver_processed_spans:
  assumes f: "outputFifo w = Some fifo" and ci: "cursorsInside fifo"
    and ok: "ok_buffer b" and C: "0 < getNumChannels b"
    and lfb: "bufferSize fifo \<le> length (fifoBuffer w)"
    and avail: "getNumSamples b \<le> getNumReady fifo div getNumChannels b"
    and sp: "m1 + m2 = getNumSamples b"
      "min (bufferSize fifo - validStart fifo) (getNumSamples b * getNumChannels b)
         = m1 * getNumChannels b"
      "getNumSamples b * getNumChannels b
         - min (bufferSize fifo - validStart fifo) (getNumSamples b * getNumChannels b)
         = m2 * getNumChannels b"
      "m2 = 0 \<or> validStart fifo + m1 * getNumChannels b = bufferSize fifo"
  shows "deliver b w =
           Inr (PROCESSED,
                planar (getNumChannels b) (getNumSamples b)
                  (take (getNumSamples b * getNumChannels b) (fifoContents fifo (fifoBuffer w))),
                w\<lparr>outputFifo := Some (finishedRead (getNumSamples b * getNumChannels b) fifo)\<rparr>)"
proof -
  let ?C = "getNumChannels b" and ?n = "getNumSamples b" and ?fb = "fifoBuffer w"
  let ?B = "bufferSize fifo" and ?vs = "validStart fifo"
  let ?K = "?n * ?C"
  let ?P = "planar ?C ?n (take ?K (fifoContents fifo ?fb))"
  from frames_le_ready [OF avail] have K: "?K \<le> getNumReady fifo" .
  from ci have vs: "?vs < ?B" by (simp add: cursorsInside_def)
  from K getNumReady_less [OF ci] have KB: "?K < ?B" by simp
  have read: "deinterleave (fst (prepareToRead ?K fifo)) (fst (snd (prepareToRead ?K fifo)))
                (fst (snd (snd (prepareToRead ?K fifo)))) (snd (snd (snd (prepareToRead ?K fifo))))
                ?C ?fb (clear_buffer b) = Inr ?P"
  proof (cases "?K = 0")
    case True
    with C have n0: "?n = 0" by simp
    have cb: "clear_buffer b = ?P"
      by (rule AudioBuffer_eqI [OF clear_buffer_ok(1) planar_ok(1)])
        (simp_all add: clear_buffer_ok planar_ok n0)
    have pr: "prepareToRead ?K fifo = (0, 0, 0, 0)"
      by (simp add: n0 prepareToRead_def)
    have "deinterleave 0 0 0 0 ?C ?fb (clear_buffer b) = Inr (clear_buffer b)"
      by (simp add: deinterleave_def deinterleaveSpan_empty)
    then show ?thesis unfolding pr by (simp add: cb [symmetric])
  next
    case False
    then have Kpos: "0 < ?K" by simp
    let ?y = "clear_buffer b"
    have l1: "?vs + m1 * getNumChannels ?y \<le> length ?fb"
      using sp(2) vs lfb by (simp add: clear_buffer_ok min_def split: if_splits)
    from sp(1) have "m2 \<le> ?n" by simp
    then have m2K: "m2 * ?C \<le> ?K" by (rule mult_le_mono1)
    with KB lfb have l2: "0 + m2 * getNumChannels ?y \<le> length ?fb"
      unfolding clear_buffer_ok by linarith
    from C have Cy: "0 < getNumChannels ?y" by (simp add: clear_buffer_ok)
    from sp(1) have ny: "m1 + m2 = getNumSamples ?y" by (simp add: clear_buffer_ok)
    from deinterleave_two_spans [OF clear_buffer_ok(1) Cy ny l1 l2] obtain b2 where
      d: "deinterleave ?vs (m1 * ?C) 0 (m2 * ?C) ?C ?fb ?y = Inr b2"
      and ok2: "ok_buffer b2" and nc2: "getNumChannels b2 = ?C" and ns2: "getNumSamples b2 = ?n"
      and gs2: "\<And>c t. c < ?C \<Longrightarrow> t < ?n \<Longrightarrow>
                 getSample b2 c t = (if t < m1 then ?fb ! (?vs + t * ?C + c)
                                     else ?fb ! (0 + (t - m1) * ?C + c))"
      by (auto simp: clear_buffer_ok)
    have "b2 = ?P"
    proof (rule AudioBuffer_eqI [OF ok2 planar_ok(1)])
      fix c t assume "c < getNumChannels b2" and "t < getNumSamples b2"
      then have c: "c < ?C" and t: "t < ?n" by (simp_all add: nc2 ns2)
      from frame_index_lt [OF c t] have lt: "t * ?C + c < ?K" .
      with K have lt': "t * ?C + c < getNumReady fifo" by simp
      have "getSample ?P c t = take ?K (fifoContents fifo ?fb) ! (t * ?C + c)"
        by (rule getSample_planar [OF c t])
      also from lt have "\<dots> = fifoContents fifo ?fb ! (t * ?C + c)" by simp
      also from lt' have "\<dots> = ?fb ! ((?vs + (t * ?C + c)) mod ?B)"
        by (rule nth_fifoContents)
      also have "(?vs + (t * ?C + c)) mod ?B
                   = (if t < m1 then ?vs + t * ?C + c else 0 + (t - m1) * ?C + c)"
      proof (cases "t < m1")
        case True
        from frame_index_lt [OF c True] have "t * ?C + c < m1 * ?C" .
        moreover from sp(2) vs have "?vs + m1 * ?C \<le> ?B"
          by (simp add: min_def split: if_splits)
        ultimately have "?vs + (t * ?C + c) < ?B" by linarith
        with True show ?thesis by (simp add: add.assoc)
      next
        case False
        then have "m1 \<le> t" by simp
        then have tC: "t * ?C = m1 * ?C + (t - m1) * ?C"
          by (simp add: add_mult_distrib [symmetric])
        from False t sp(1) have "m2 \<noteq> 0" by linarith
        with sp(4) have full: "?vs + m1 * ?C = ?B" by simp
        from False t sp(1) have "t - m1 < m2" by linarith
        from frame_index_lt [OF c this] have "(t - m1) * ?C + c < m2 * ?C" .
        also note m2K
        also note KB
        finally have small: "(t - m1) * ?C + c < ?B" .
        have e: "?vs + (t * ?C + c) = ?B + ((t - m1) * ?C + c)"
          using tC full by linarith
        have "(?vs + (t * ?C + c)) mod ?B = ((t - m1) * ?C + c) mod ?B"
          unfolding e by (rule mod_add_self1)
        with small False show ?thesis by simp
      qed
      finally show "getSample b2 c t = getSample ?P c t"
        using gs2 [OF c t] by simp
    qed (simp_all add: nc2 ns2 planar_ok)
    with d have d': "deinterleave ?vs (m1 * ?C) 0 (m2 * ?C) ?C ?fb ?y = Inr ?P" by simp
    from prepareToRead_spans [OF ci K Kpos] sp(2,3)
    have "prepareToRead ?K fifo = (?vs, m1 * ?C, 0, m2 * ?C)" by simp
    with d' show ?thesis by simp
  qed
  from f C avail read show ?thesis
    by (simp add: deliver_def Let_def case_prod_beta)
qed

lemma fillAndDrain_total:
  assumes rc: "receiveContract st" and rb: "receiveBounded st"
    and p: "prepared w" and ch: "int (getNumChannels buffer) = currentNumChannels w"
  shows "\<exists>w1 xs. fillAndDrain st buffer w = Some (Inr w1) \<and> prepared w1 \<and>
           currentNumChannels w1 = currentNumChannels w \<and>
           waiting w1 = waiting w @ xs \<and>
           (frameAligned w \<longrightarrow> frameAligned w1)"
proof -
  let ?n = "getNumSamples buffer" and ?C = "getNumChannels buffer"
  from p obtain fifo where f: "outputFifo w = Some fifo"
    by (cases "outputFifo w") (simp_all add: prepared_def)
  with p have cpos: "0 < currentNumChannels w" and ci: "cursorsInside fifo"
    and len: "length (fifoBuffer w) = bufferSize fifo * nat (currentNumChannels w)"
    by (simp_all add: prepared_def cursorsInside_def)
  from ch have nC: "nat (currentNumChannels w) = ?C" by simp
  with cpos have C: "0 < ?C" by simp
  then have "bufferSize fifo * 1 \<le> bufferSize fifo * ?C" by (intro mult_le_mono2) simp
  with len nC have lfb: "bufferSize fifo \<le> length (fifoBuffer w)" by simp
  let ?ib = "interleave buffer
               (if length (interleavedBuffer w) < ?n * ?C * 2
                then resize (?n * ?C * 2) (interleavedBuffer w) else interleavedBuffer w)"
  let ?e1 = "st_putSamples st ?ib ?n (processor w)"
  have lt: "?n * 2 * ?C \<le> length (replicate (?n * ?C * 2) (0::sample))" by simp
  from drain_total [OF rc rb C ci lfb lt, of ?e1] obtain e2 fifo2 fb2 xs where
    d: "drain st ?n ?C (replicate (?n * ?C * 2) 0) ?e1 fifo (fifoBuffer w)
          = Some (Inr (e2, fifo2, fb2))"
    and i: "cursorsInside fifo2" "bufferSize fifo2 = bufferSize fifo"
      "validStart fifo2 = validStart fifo" "length fb2 = length (fifoBuffer w)"
      "fifoContents fifo2 fb2 = fifoContents fifo (fifoBuffer w) @ xs"
      "?C dvd bufferSize fifo \<longrightarrow> ?C dvd validEnd fifo \<longrightarrow> ?C dvd validEnd fifo2"
    by blast
  let ?w1 = "w\<lparr>processor := e2, interleavedBuffer := ?ib,
               outputFifo := Some fifo2, fifoBuffer := fb2\<rparr>"
  have run: "fillAndDrain st buffer w = Some (Inr ?w1)"
    using f d by (simp add: fillAndDrain_def Let_def)
  have p1: "prepared ?w1"
    using i(1,2,4) cpos len by (simp add: prepared_def cursorsInside_def)
  have w1: "waiting ?w1 = waiting w @ xs"
    using f i(5) by (simp add: waiting_def)
  have al: "frameAligned w \<longrightarrow> frameAligned ?w1"
    using f i(2,3,6) nC by (simp add: frameAligned_def)
  from run p1 w1 al show ?thesis
    by (intro exI [of _ ?w1] exI [of _ xs]) simp
qed

lemma deliver_aligned:
  assumes p: "prepared w" and al: "frameAligned w"
    and ok: "ok_buffer buffer" and ch: "int (getNumChannels buffer) = currentNumChannels w"
  shows "occupancyFrames w < getNumSamples buffer \<longrightarrow>
           deliver buffer w = Inr (PASSTHROUGH, buffer, w)"
    and "getNumSamples buffer \<le> occupancyFrames w \<longrightarrow>
           (\<exists>w2. deliver buffer w =
                   Inr (PROCESSED,
                        planar (getNumChannels buffer) (getNumSamples buffer)
                          (take (getNumSamples buffer * getNumChannels buffer) (waiting w)),
                        w2) \<and>
                 waiting w2 = drop (getNumSamples buffer * getNumChannels buffer) (waiting w) \<and>
                 prepared w2 \<and> frameAligned w2)"
proof -
  let ?n = "getNumSamples buffer" and ?C = "getNumChannels buffer"
  from p obtain fifo where f: "outputFifo w = Some fifo"
    by (cases "outputFifo w") (simp_all add: prepared_def)
  with p have cpos: "0 < currentNumChannels w" and ci: "cursorsInside fifo"
    and len: "length (fifoBuffer w) = bufferSize fifo * nat (currentNumChannels w)"
    by (simp_all add: prepared_def cursorsInside_def)
  from ch have nC: "nat (currentNumChannels w) = ?C" by simp
  with cpos have C: "0 < ?C" by simp
  then have "bufferSize fifo * 1 \<le> bufferSize fifo * ?C" by (intro mult_le_mono2) simp
  with len nC have lfb: "bufferSize fifo \<le> length (fifoBuffer w)" by simp
  from al f nC have d: "?C dvd bufferSize fifo" "?C dvd validStart fifo" "?C dvd validEnd fifo"
    by (simp_all add: frameAligned_def)
  from ci have vs: "validStart fifo < bufferSize fifo" by (simp add: cursorsInside_def)
  have occ: "occupancyFrames w = getNumReady fifo div ?C"
    using f nC by (simp add: occupancyFrames_def)
  show "occupancyFrames w < ?n \<longrightarrow> deliver buffer w = Inr (PASSTHROUGH, buffer, w)"
    using deliver_passthrough [OF f C] occ by simp
  show "?n \<le> occupancyFrames w \<longrightarrow>
           (\<exists>w2. deliver buffer w =
                   Inr (PROCESSED, planar ?C ?n (take (?n * ?C) (waiting w)), w2) \<and>
                 waiting w2 = drop (?n * ?C) (waiting w) \<and> prepared w2 \<and> frameAligned w2)"
  proof
    assume "?n \<le> occupancyFrames w"
    with occ have avail: "?n \<le> getNumReady fifo div ?C" by simp
    from frames_le_ready [OF avail] have K: "?n * ?C \<le> getNumReady fifo" .
    from read_spans_frames [OF C d(1,2) vs, of ?n] obtain m1 m2 where
      sp: "m1 + m2 = ?n" "min (bufferSize fifo - validStart fifo) (?n * ?C) = m1 * ?C"
        "?n * ?C - min (bufferSize fifo - validStart fifo) (?n * ?C) = m2 * ?C"
        "m2 = 0 \<or> validStart fifo + m1 * ?C = bufferSize fifo"
      by blast
    let ?f2 = "finishedRead (?n * ?C) fifo"
    let ?w2 = "w\<lparr>outputFifo := Some ?f2\<rparr>"
    from deliver_processed_spans [OF f ci ok C lfb avail sp]
    have run: "deliver buffer w =
                 Inr (PROCESSED, planar ?C ?n (take (?n * ?C) (waiting w)), ?w2)"
      using f by (simp add: waiting_def)
    note fe = finishedRead_effect [OF ci K]
    have wt: "waiting ?w2 = drop (?n * ?C) (waiting w)"
      using f finishedRead_contents [OF ci K] by (simp add: waiting_def)
    from fe have "cursorsInside ?f2" by simp
    with cpos len have p2: "prepared ?w2"
      by (simp add: prepared_def cursorsInside_def)
    have "?C dvd validStart ?f2" by (rule finishedRead_aligned [OF d(1,2)]) simp
    with d nC have a2: "frameAligned ?w2" by (simp add: frameAligned_def)
    from run wt p2 a2 show "\<exists>w2. deliver buffer w =
                   Inr (PROCESSED, planar ?C ?n (take (?n * ?C) (waiting w)), w2) \<and>
                 waiting w2 = drop (?n * ?C) (waiting w) \<and> prepared w2 \<and> frameAligned w2"
      by blast
  qed
qed

text \<open>
  The two outcomes on a frame-aligned ring buffer. For an engine that keeps both
  contracts, a prepared adapter whose ring buffer is frame-aligned (size and cursors are
  multiples of the channel count, as they are for one and for two channels) and a block
  with the prepared channel count: \<open>processBlock\<close> returns; steps 1 and 2 leave a prepared, aligned adapter \<open>w1\<close> whose
  waiting samples extend those of before; if \<open>w1\<close> holds fewer frames than the block, the
  block comes back as it went in and \<open>w1\<close> is the new state; otherwise the block comes back
  as the planar form of the first \<open>numSamples\<close> waiting frames, which leave the ring
  buffer, and the adapter stays prepared and aligned.
\<close>

theorem processBlock_two_outcomes:
  assumes "receiveContract st" and "receiveBounded st"
    and "prepared w" and "frameAligned w"
    and "ok_buffer buffer" and "int (getNumChannels buffer) = currentNumChannels w"
  shows "\<exists>w1. fillAndDrain st buffer w = Some (Inr w1) \<and>
           processBlock st buffer w = Some (deliver buffer w1) \<and>
           prepared w1 \<and> frameAligned w1 \<and> (\<exists>xs. waiting w1 = waiting w @ xs) \<and>
           (occupancyFrames w1 < getNumSamples buffer \<longrightarrow>
              deliver buffer w1 = Inr (PASSTHROUGH, buffer, w1)) \<and>
           (getNumSamples buffer \<le> occupancyFrames w1 \<longrightarrow>
              (\<exists>w2. deliver buffer w1 =
                      Inr (PROCESSED,
                           planar (getNumChannels buffer) (getNumSamples buffer)
                             (take (getNumSamples buffer * getNumChannels buffer) (waiting w1)),
                           w2) \<and>
                    waiting w2
                      = drop (getNumSamples buffer * getNumChannels buffer) (waiting w1) \<and>
                    prepared w2 \<and> frameAligned w2))"
proof -
  from fillAndDrain_total [OF assms(1,2,3,6)] assms(4) obtain w1 xs where
    run: "fillAndDrain st buffer w = Some (Inr w1)" and p1: "prepared w1"
    and c1: "currentNumChannels w1 = currentNumChannels w"
    and wt: "waiting w1 = waiting w @ xs" and a1: "frameAligned w1"
    by blast
  from assms(6) c1 have ch1: "int (getNumChannels buffer) = currentNumChannels w1" by simp
  have pb: "processBlock st buffer w = Some (deliver buffer w1)"
    using assms(6) run by (simp add: processBlock_def)
  note dl = deliver_aligned [OF p1 a1 assms(5) ch1]
  from run pb p1 a1 wt dl show ?thesis by blast
qed

subsection \<open>The relay engine, block by block\<close>

text \<open>One round of the drain loop empties the relay engine when it holds one block.\<close>

lemma relay_drain_block:
  assumes C: "0 < C" and q: "length q = n * C" and n: "0 < n"
    and ci: "cursorsInside fifo" and lfb: "bufferSize fifo \<le> length fb"
    and lt: "n * 2 * C \<le> length temp"
  shows "\<exists>fb1. drain relayEngine n C temp \<lparr>relayChannels = C, relayQueue = q\<rparr> fifo fb
                 = Some (Inr (\<lparr>relayChannels = C, relayQueue = []\<rparr>,
                              finishedWrite (min n (getFreeSpace fifo div C) * C) fifo, fb1)) \<and>
               length fb1 = length fb"
proof -
  let ?e = "\<lparr>relayChannels = C, relayQueue = q\<rparr>"
  let ?e1 = "\<lparr>relayChannels = C, relayQueue = []\<rparr>"
  define t1 where "t1 = take (length temp) (take (n * C) q @ drop (n * C) temp)"
  from C q have ns: "st_numSamples relayEngine ?e = n" by (simp add: relayEngine_def)
  have ns1: "st_numSamples relayEngine ?e1 = 0" by (simp add: relayEngine_def)
  from C q have r: "st_receiveSamples relayEngine temp (n * 2) ?e = (n, t1, ?e1)"
    by (simp add: relayEngine_def Let_def t1_def min_def)
  from q have "length t1 = length temp" unfolding t1_def by (intro length_overwrite) simp
  with lt have kt: "n * C \<le> length t1" by simp
  from fifoWrite_result [OF ci C lfb kt refl] obtain fb1 where
    fw: "fifoWrite n C t1 fifo fb
           = Inr (finishedWrite (min n (getFreeSpace fifo div C) * C) fifo, fb1)"
    and l1: "length fb1 = length fb"
    by blast
  have stop: "drain relayEngine n C t1 ?e1
                (finishedWrite (min n (getFreeSpace fifo div C) * C) fifo) fb1
              = Some (Inr (?e1, finishedWrite (min n (getFreeSpace fifo div C) * C) fifo, fb1))"
    by (subst drain.simps) (simp add: ns1)
  have "drain relayEngine n C temp ?e fifo fb
          = Some (Inr (?e1, finishedWrite (min n (getFreeSpace fifo div C) * C) fifo, fb1))"
    by (subst drain.simps) (use n in \<open>simp add: ns r fw stop\<close>)
  with l1 show ?thesis by blast
qed

lemma relay_fillAndDrain_block:
  assumes pr: "processor w = \<lparr>relayChannels = C, relayQueue = []\<rparr>"
    and f: "outputFifo w = Some fifo" and ci: "cursorsInside fifo"
    and lfb: "bufferSize fifo \<le> length (fifoBuffer w)"
    and C: "0 < C" and b: "getNumChannels b = C" "getNumSamples b = n" and n: "0 < n"
  shows "\<exists>ib fb1. fillAndDrain relayEngine b w
                    = Some (Inr (w\<lparr>processor := \<lparr>relayChannels = C, relayQueue = []\<rparr>,
                                   interleavedBuffer := ib,
                                   outputFifo :=
                                     Some (finishedWrite (min n (getFreeSpace fifo div C) * C) fifo),
                                   fifoBuffer := fb1\<rparr>)) \<and>
                  length fb1 = length (fifoBuffer w)"
proof -
  define ib where "ib = interleave b
               (if length (interleavedBuffer w) < n * C * 2
                then resize (n * C * 2) (interleavedBuffer w) else interleavedBuffer w)"
  from C b have Cb: "0 < getNumChannels b" by simp
  have "n * C \<le> length ib"
    unfolding ib_def interleave_nth(1) [OF Cb] by (simp add: length_resize)
  then have q: "length (take (n * C) ib) = n * C" by simp
  have put: "st_putSamples relayEngine ib n (processor w)
               = \<lparr>relayChannels = C, relayQueue = take (n * C) ib\<rparr>"
    by (simp add: relayEngine_def pr)
  have lt: "n * 2 * C \<le> length (replicate (n * C * 2) (0::sample))" by simp
  from relay_drain_block [OF C q n ci lfb lt] obtain fb1 where
    d: "drain relayEngine n C (replicate (n * C * 2) 0)
          \<lparr>relayChannels = C, relayQueue = take (n * C) ib\<rparr> fifo (fifoBuffer w)
          = Some (Inr (\<lparr>relayChannels = C, relayQueue = []\<rparr>,
                       finishedWrite (min n (getFreeSpace fifo div C) * C) fifo, fb1))"
    and l1: "length fb1 = length (fifoBuffer w)"
    by blast
  have "fillAndDrain relayEngine b w
          = Some (Inr (w\<lparr>processor := \<lparr>relayChannels = C, relayQueue = []\<rparr>,
                         interleavedBuffer := ib,
                         outputFifo :=
                           Some (finishedWrite (min n (getFreeSpace fifo div C) * C) fifo),
                         fifoBuffer := fb1\<rparr>))"
    unfolding fillAndDrain_def Let_def b f ib_def [symmetric] put
    by (simp add: d)
  with l1 show ?thesis by blast
qed

subsection \<open>A frame across the end of the ring buffer\<close>

lemma silence_ok:
  "ok_buffer (silence C n)" "getNumChannels (silence C n) = C" "getNumSamples (silence C n) = n"
  by (simp_all add: silence_def ok_buffer_iff)

lemma deliver_straddle:
  assumes f: "outputFifo w = Some \<lparr>bufferSize = 16384, validStart = 16383, validEnd = 2\<rparr>"
    and l: "length (fifoBuffer w) = 49152"
  shows "deliver (silence 3 1) w = Inl OutOfRange"
proof -
  let ?f = "\<lparr>bufferSize = 16384, validStart = 16383, validEnd = 2\<rparr>"
  let ?fb = "fifoBuffer w"
  let ?y = "clear_buffer (silence 3 1)"
  have y: "ok_buffer ?y" "getNumChannels ?y = 3" "getNumSamples ?y = 1"
    by (simp_all add: clear_buffer_ok silence_ok)
  have nr: "getNumReady ?f = 3" by (simp add: getNumReady_def)
  have pr: "prepareToRead 3 ?f = (16383, 1, 0, 2)"
    by (simp add: prepareToRead_def nr)
  from copyFrame_ok [OF y(1), of 0 16383 ?fb] y l obtain b1 where
    c1: "copyFrame 16383 3 ?fb 0 ?y = Inr b1" and n1: "getNumSamples b1 = 1"
    by auto
  have s0: "deinterleaveSpan 3 1 16383 3 ?fb b1 1 = Inr (b1, 1)"
    by (subst deinterleaveSpan.simps) simp
  have s1: "deinterleaveSpan 0 1 16383 3 ?fb ?y 0 = Inr (b1, 1)"
    by (subst deinterleaveSpan.simps) (simp add: c1 s0 del: One_nat_def)
  have c2: "copyFrame 0 3 ?fb 1 b1 = Inl OutOfRange"
    by (simp add: copyFrame_def n1)
  have s2: "deinterleaveSpan 0 2 0 3 ?fb b1 1 = Inl OutOfRange"
    by (subst deinterleaveSpan.simps) (simp add: c2 del: One_nat_def)
  have "deinterleave 16383 1 0 2 3 ?fb ?y = Inl OutOfRange"
    by (simp add: deinterleave_def s1 s2 del: One_nat_def)
  then show ?thesis
    by (simp add: deliver_def Let_def f silence_ok nr pr del: One_nat_def)
qed

text \<open>
  C1. With three channels the two-outcome rule breaks. \<open>prepare(44100.0, 512, 3)\<close> makes
  the ring buffer with the number 16384, which it counts in samples and which is not a
  multiple of 3. A block of 5461 frames fills and empties it up to index 16383; the next
  block, of one frame, is written to the indices 16383, 0 and 1. The occupancy is then one
  frame, as many as the block has, so the block is to be overwritten with that frame; the
  read loops take the frame at 16383, 16384, 16385 and a second frame at 0, 1, 2, which
  \<open>setSample\<close> writes behind the end of the one-frame block.
\<close>

theorem processBlock_straddle:
  "prepare relayEngine 44100 512 3 (SoundTouchWrapper_new relayInit) = Inr surround512 \<and>
   processBlocks relayEngine [silence 3 5461, silence 3 1] surround512 = Some (Inl OutOfRange)"
proof -
  let ?f0 = "\<lparr>bufferSize = 16384, validStart = 0, validEnd = 0\<rparr>"
  let ?f1 = "\<lparr>bufferSize = 16384, validStart = 0, validEnd = 16383\<rparr>"
  let ?f2 = "\<lparr>bufferSize = 16384, validStart = 16383, validEnd = 16383\<rparr>"
  let ?f3 = "\<lparr>bufferSize = 16384, validStart = 16383, validEnd = 2\<rparr>"
  let ?e = "\<lparr>relayChannels = 3, relayQueue = []\<rparr>"
  have w0: "processor surround512 = ?e" "outputFifo surround512 = Some ?f0"
    "currentNumChannels surround512 = 3" "length (fifoBuffer surround512) = 49152"
    by (simp_all add: surround512_def)
  have ci0: "cursorsInside ?f0" by (simp add: cursorsInside_def)
  have l0: "bufferSize ?f0 \<le> length (fifoBuffer surround512)" by (simp add: w0)
  have K1: "finishedWrite (min 5461 (getFreeSpace ?f0 div 3) * 3) ?f0 = ?f1"
    by (simp add: getFreeSpace_def getNumReady_def finishedWrite_def)
  from relay_fillAndDrain_block [OF w0(1,2) ci0 l0 _ silence_ok(2,3), of 5461]
  obtain ib1 fb1 where
    fd1: "fillAndDrain relayEngine (silence 3 5461) surround512
            = Some (Inr (surround512\<lparr>processor := ?e, interleavedBuffer := ib1,
                           outputFifo := Some ?f1, fifoBuffer := fb1\<rparr>))"
    and l1: "length fb1 = 49152"
    unfolding K1 w0 by auto
  define w1 where "w1 = surround512\<lparr>processor := ?e, interleavedBuffer := ib1,
                           outputFifo := Some ?f1, fifoBuffer := fb1\<rparr>"
  have w1: "processor w1 = ?e" "outputFifo w1 = Some ?f1" "fifoBuffer w1 = fb1"
    "currentNumChannels w1 = 3"
    by (simp_all add: w1_def surround512_def)
  have ci1: "cursorsInside ?f1" by (simp add: cursorsInside_def)
  have nr1: "getNumReady ?f1 = 16383" by (simp add: getNumReady_def)
  have R1: "finishedRead (5461 * 3) ?f1 = ?f2"
    by (simp add: finishedRead_def)
  have "deliver (silence 3 5461) w1 =
          Inr (PROCESSED,
               planar (getNumChannels (silence 3 5461)) (getNumSamples (silence 3 5461))
                 (take (getNumSamples (silence 3 5461) * getNumChannels (silence 3 5461))
                    (fifoContents ?f1 (fifoBuffer w1))),
               w1\<lparr>outputFifo := Some (finishedRead
                  (getNumSamples (silence 3 5461) * getNumChannels (silence 3 5461)) ?f1)\<rparr>)"
    by (rule deliver_processed_spans [where ?m1.0 = 5461 and ?m2.0 = 0])
      (simp_all add: ci1 silence_ok nr1 l1 w1)
  then obtain P where
    dl1: "deliver (silence 3 5461) w1 = Inr (PROCESSED, P, w1\<lparr>outputFifo := Some ?f2\<rparr>)"
    unfolding silence_ok R1 by blast
  define w2 where "w2 = w1\<lparr>outputFifo := Some ?f2\<rparr>"
  have pb1: "processBlock relayEngine (silence 3 5461) surround512
               = Some (Inr (PROCESSED, P, w2))"
    using fd1 dl1 by (simp add: processBlock_def silence_ok w0 w1_def [symmetric] w2_def)
  have w2: "processor w2 = ?e" "outputFifo w2 = Some ?f2" "fifoBuffer w2 = fb1"
    "currentNumChannels w2 = 3"
    by (simp_all add: w2_def w1)
  have ci2: "cursorsInside ?f2" by (simp add: cursorsInside_def)
  have l2: "bufferSize ?f2 \<le> length (fifoBuffer w2)" by (simp add: w2 l1)
  have K2: "finishedWrite (min 1 (getFreeSpace ?f2 div 3) * 3) ?f2 = ?f3"
    by (simp add: getFreeSpace_def getNumReady_def finishedWrite_def)
  from relay_fillAndDrain_block [OF w2(1,2) ci2 l2 _ silence_ok(2,3), of 1]
  obtain ib2 fb2 where
    fd2: "fillAndDrain relayEngine (silence 3 1) w2
            = Some (Inr (w2\<lparr>processor := ?e, interleavedBuffer := ib2,
                           outputFifo := Some ?f3, fifoBuffer := fb2\<rparr>))"
    and l3: "length fb2 = 49152"
    unfolding K2 w2 l1 by auto
  define w3 where "w3 = w2\<lparr>processor := ?e, interleavedBuffer := ib2,
                           outputFifo := Some ?f3, fifoBuffer := fb2\<rparr>"
  have dl2: "deliver (silence 3 1) w3 = Inl OutOfRange"
    by (rule deliver_straddle) (simp_all add: w3_def l3)
  have pb2: "processBlock relayEngine (silence 3 1) w2 = Some (Inl OutOfRange)"
    using fd2 dl2 by (simp add: processBlock_def silence_ok w2 w3_def [symmetric])
  show ?thesis
    by (simp add: pb1 pb2 prepare_surround512 del: One_nat_def)
qed

subsection \<open>Aligned adapters\<close>

lemma even_fifoSizeFor: "even (fifoSizeFor mode blockSize)"
  by (simp add: fifoSizeFor_def max_def even_int32)

lemma channels_dvd_fifoSize:
  assumes "numChannels = 1 \<or> numChannels = 2"
  shows "nat numChannels dvd nat (fifoSizeFor mode blockSize)"
proof -
  have "0 \<le> fifoSizeFor mode blockSize" using fifoSizeFor_pos [of mode blockSize] by simp
  then have "even (nat (fifoSizeFor mode blockSize))"
    using even_fifoSizeFor [of mode blockSize] by (simp add: even_nat_iff)
  with assms show ?thesis by auto
qed

lemma fifoSizeFor_small:
  assumes "0 \<le> bs" and "bs \<le> 16777215"
  shows "fifoSizeFor mode bs \<le> 1073741760"
proof -
  from assms have "int32 (bs * 8) = bs * 8" "int32 (bs * 32) = bs * 32"
    "int32 (bs * 64) = bs * 64"
    by (simp_all add: int32_id)
  with assms show ?thesis
    by (simp add: fifoSizeFor_def max_def)
qed

text \<open>The size of \<open>fifoBuffer\<close> for one or two channels, when \<open>resize\<close> does not throw.\<close>

lemma fifoBufferSize_exact:
  assumes ch: "c = 1 \<or> c = 2" and nn: "0 \<le> int32 (fifoSizeFor mode bs * c)"
  shows "nat (int32 (fifoSizeFor mode bs * c)) = nat (fifoSizeFor mode bs) * nat c"
proof -
  let ?fs = "fifoSizeFor mode bs"
  have p: "0 < ?fs" by (rule fifoSizeFor_pos)
  have l: "?fs < 2147483648" by (rule fifoSizeFor_less)
  from ch p l have "0 \<le> ?fs * c" "?fs * c < 4294967296" by auto
  from int32_nonneg_id [OF this nn] have "int32 (?fs * c) = ?fs * c" .
  with ch p show ?thesis by (auto simp: nat_mult_distrib)
qed

text \<open>
  \<open>prepare\<close> with one or two channels and a block size from 0 to \<open>2^24 - 1\<close> succeeds and
  gives a prepared, frame-aligned adapter with that channel count.
\<close>

theorem prepare_mono_stereo:
  assumes ch: "numChannels = 1 \<or> numChannels = 2"
    and bs: "0 \<le> blockSize" "blockSize \<le> 16777215"
  shows "\<exists>w1. prepare st sampleRate blockSize numChannels w = Inr w1 \<and>
              prepared w1 \<and> frameAligned w1 \<and> currentNumChannels w1 = numChannels"
proof -
  let ?fs = "fifoSizeFor (bufferingMode w) blockSize"
  have p: "0 < ?fs" by (rule fifoSizeFor_pos)
  have s: "?fs \<le> 1073741760" by (rule fifoSizeFor_small [OF bs])
  from ch bs have i1: "int32 (blockSize * numChannels) = blockSize * numChannels"
    by (intro int32_id) auto
  from ch bs have i2: "int32 (blockSize * numChannels * 2) = blockSize * numChannels * 2"
    by (intro int32_id) auto
  from ch p s have i3: "int32 (?fs * numChannels) = ?fs * numChannels"
    by (intro int32_id) auto
  from ch bs have nb: "\<not> blockSize * numChannels * 2 < 0" by auto
  from ch p have nf: "\<not> ?fs * numChannels < 0" by auto
  from ch have c: "0 < numChannels" by auto
  from channels_dvd_fifoSize [OF ch] have d: "nat numChannels dvd nat ?fs" .
  from p c have l: "nat (?fs * numChannels) = nat ?fs * nat numChannels"
    by (simp add: nat_mult_distrib)
  show ?thesis
    using nb nf c d p l
    by (simp add: prepare_def Let_def i1 i2 i3 prepared_def frameAligned_def
        AbstractFifo_new_def length_resize)
qed

theorem prepare_mono_stereo_witness:
  "((2::int) = 1 \<or> (2::int) = 2) \<and> (0::int) \<le> 512 \<and> (512::int) \<le> 16777215 \<and>
   prepare relayEngine 44100 512 2 (SoundTouchWrapper_new relayInit) = Inr stereo512 \<and>
   prepared stereo512 \<and> frameAligned stereo512 \<and> currentNumChannels stereo512 = 2"
  using prepare_mono_stereo [of 2 512 relayEngine 44100 "SoundTouchWrapper_new relayInit"]
    prepare_stereo512
  by auto

text \<open>
  \<open>setBufferingMode\<close> keeps a prepared, frame-aligned adapter of one or two channels
  prepared and frame-aligned, whatever the mode, and it succeeds for a block size up to
  \<open>2^24 - 1\<close>.
\<close>

theorem setBufferingMode_keeps_aligned:
  assumes p: "prepared w" and a: "frameAligned w"
    and ch: "currentNumChannels w = 1 \<or> currentNumChannels w = 2"
  shows "(\<forall>w1. setBufferingMode st mode w = Inr w1 \<longrightarrow> prepared w1 \<and> frameAligned w1) \<and>
         (currentBlockSize w \<le> 16777215 \<longrightarrow> (\<exists>w1. setBufferingMode st mode w = Inr w1))"
proof (cases "mode < 1 \<or> mode > 3 \<or> mode = bufferingMode w")
  case True
  with p a show ?thesis by (simp add: setBufferingMode_def)
next
  case False
  show ?thesis
  proof (cases "currentBlockSize w > 0")
    case True
    let ?fs = "fifoSizeFor mode (currentBlockSize w)"
    let ?n = "int32 (?fs * currentNumChannels w)"
    have fp: "0 < ?fs" by (rule fifoSizeFor_pos)
    from ch have c: "0 < currentNumChannels w" by auto
    from channels_dvd_fifoSize [OF ch] have d: "nat (currentNumChannels w) dvd nat ?fs" .
    have run: "setBufferingMode st mode w =
                 (if ?n < 0 then Inl BadAlloc
                  else Inr (w\<lparr>bufferingMode := mode,
                              outputFifo := Some (AbstractFifo_new (nat ?fs)),
                              fifoBuffer := resize (nat ?n) (fifoBuffer w),
                              processor := st_clear st (processor w)\<rparr>))"
      using False True c by (simp add: setBufferingMode_def Let_def)
    have first: "\<forall>w1. setBufferingMode st mode w = Inr w1 \<longrightarrow> prepared w1 \<and> frameAligned w1"
    proof (intro allI impI)
      fix w1
      assume r: "setBufferingMode st mode w = Inr w1"
      with run have nn: "0 \<le> ?n"
        by (simp split: if_splits)
      from fifoBufferSize_exact [OF ch nn] have l: "nat ?n = nat ?fs * nat (currentNumChannels w)" .
      from r run nn have "w1 = w\<lparr>bufferingMode := mode,
                              outputFifo := Some (AbstractFifo_new (nat ?fs)),
                              fifoBuffer := resize (nat ?n) (fifoBuffer w),
                              processor := st_clear st (processor w)\<rparr>"
        by simp
      with c d fp l show "prepared w1 \<and> frameAligned w1"
        by (simp add: prepared_def frameAligned_def AbstractFifo_new_def length_resize)
    qed
    have second: "currentBlockSize w \<le> 16777215 \<longrightarrow> (\<exists>w1. setBufferingMode st mode w = Inr w1)"
    proof
      assume b: "currentBlockSize w \<le> 16777215"
      from True have "0 \<le> currentBlockSize w" by simp
      from fifoSizeFor_small [OF this b] have "?fs \<le> 1073741760" .
      with ch fp have "int32 (?fs * currentNumChannels w) = ?fs * currentNumChannels w"
        by (intro int32_id) auto
      with ch fp have "\<not> ?n < 0" by auto
      with run show "\<exists>w1. setBufferingMode st mode w = Inr w1" by simp
    qed
    from first second show ?thesis by (rule conjI)
  next
    case nb: False
    with False p a show ?thesis
      by (cases "outputFifo w") (simp_all add: setBufferingMode_def prepared_def frameAligned_def)
  qed
qed

theorem setBufferingMode_keeps_aligned_witness:
  "prepared stereo512 \<and> frameAligned stereo512 \<and>
   (currentNumChannels stereo512 = 1 \<or> currentNumChannels stereo512 = 2) \<and>
   currentBlockSize stereo512 \<le> 16777215 \<and>
   (\<exists>w1. setBufferingMode relayEngine 3 stereo512 = Inr w1 \<and> prepared w1 \<and> frameAligned w1)"
proof -
  have h: "currentNumChannels stereo512 = 1 \<or> currentNumChannels stereo512 = 2"
    and b: "currentBlockSize stereo512 \<le> 16777215"
    by (simp_all add: stereo512_def)
  from setBufferingMode_keeps_aligned [OF prepared_stereo512 frameAligned_stereo512 h,
      of relayEngine 3]
    prepared_stereo512 frameAligned_stereo512 h b
  show ?thesis by blast
qed

theorem processBlock_two_outcomes_witness:
  "receiveContract relayEngine \<and> receiveBounded relayEngine \<and>
   prepared stereo512 \<and> frameAligned stereo512 \<and> ok_buffer (silence 2 512) \<and>
   int (getNumChannels (silence 2 512)) = currentNumChannels stereo512 \<and>
   (\<exists>w1. fillAndDrain relayEngine (silence 2 512) stereo512 = Some (Inr w1) \<and>
         processBlock relayEngine (silence 2 512) stereo512 = Some (deliver (silence 2 512) w1) \<and>
         prepared w1 \<and> frameAligned w1)"
proof -
  have h: "int (getNumChannels (silence 2 512)) = currentNumChannels stereo512"
    by (simp add: silence_ok stereo512_def)
  from processBlock_two_outcomes [OF relay_receiveContract relay_receiveBounded
      prepared_stereo512 frameAligned_stereo512 silence_ok(1) h]
  obtain w1 where "fillAndDrain relayEngine (silence 2 512) stereo512 = Some (Inr w1)"
    "processBlock relayEngine (silence 2 512) stereo512 = Some (deliver (silence 2 512) w1)"
    "prepared w1" "frameAligned w1"
    by blast
  with relay_receiveContract relay_receiveBounded prepared_stereo512 frameAligned_stereo512
    silence_ok(1) [of 2 512] h
  show ?thesis by blast
qed

end
